theory Spec2Isabelle
  imports Complex_Main "HOL-Library.Log_Nat"
begin

section \<open>Data model\<close>

text \<open>
  The documents of the collections the ticket lifecycle touches (\<^verbatim>\<open>models/Event.js\<close>,
  \<^verbatim>\<open>models/Ticket.js\<close>, \<^verbatim>\<open>models/Payment.js\<close>). A ticket has every path of its
  schema; of an event, a user and a payment the model keeps the paths the handlers below
  read or write by name (the timestamps kept on events and payments are not among them).
  An ObjectId is a natural number, a Date is its number of milliseconds since the epoch,
  a Number that only ever holds a count is an integer and a Number that holds money is a
  rational. A request is taken to be well-formed (its ids are ObjectIds, its fields have
  the types of the schema) and the database to answer.
\<close>

type_synonym oid = nat
type_synonym date = int

datatype event_status = Draft | Published | EventCancelled | EventCompleted

datatype ticket_status = Active | Cancelled | Used | Expired

datatype payment_status = Pending | PaymentCompleted | Failed | Refunded

record pricing =
  isFree :: bool
  price :: rat
  currency :: string

record event =
  title :: string
  startDateTime :: date
  endDateTime :: date
  pricing :: pricing
  assignedStaff :: "oid list"
  capacity :: int
  ticketsSold :: int
  eventStatus :: event_status

record user =
  firstName :: string
  lastName :: string
  email :: string

record checkInStatus =
  isCheckedIn :: bool
  checkInTime :: "date option"
  checkedInBy :: "oid option"
  checkInLocation :: "string option"

record attendeeInfo =
  specialRequirements :: "string option"
  dietaryRestrictions :: "string option"
  emergencyContactName :: "string option"
  emergencyContactPhone :: "string option"

record verification =
  isScanned :: bool
  scannedAt :: "date option"
  scannedBy :: "oid option"
  entryTime :: "date option"
  exitTime :: "date option"
  scanCount :: int

text \<open>
  The ticket schema has \<^verbatim>\<open>timestamps: true\<close>: every ticket carries \<^verbatim>\<open>createdAt\<close> and
  \<^verbatim>\<open>updatedAt\<close>, which the database layer writes.
\<close>

record ticket =
  tid :: oid
  eventId :: oid
  attendeeId :: oid
  ticketNumber :: string
  qrCodeUrl :: string
  qrCodeData :: string
  paymentId :: string
  pricePaid :: rat
  paymentStatus :: payment_status
  status :: ticket_status
  checkIn :: checkInStatus
  bookingDate :: date
  info :: attendeeInfo
  verification :: verification
  staffNotes :: "(oid \<times> string \<times> date) list"
  createdAt :: date
  updatedAt :: date

text \<open>
  The object \<^verbatim>\<open>cancelTicket\<close> assigns to the property \<^verbatim>\<open>cancellation\<close> of the document
  it loaded. The ticket schema declares no such path, so the object is no part of a
  stored \<^typ>\<open>ticket\<close>.
\<close>

record cancellation =
  isCancelled :: bool
  cancellationDate :: date
  cancellationReason :: string
  refundAmount :: rat

record refund =
  isRefunded :: bool
  refundedAmount :: "rat option"
  refundDate :: "date option"
  refundReason :: "string option"

record payment =
  payId :: string
  payStatus :: payment_status
  payRefund :: refund

text \<open>
  The database: events and users by \<^verbatim>\<open>_id\<close>, tickets and payments in insertion order
  (\<^verbatim>\<open>findOne\<close> returns the first document that matches).
\<close>

record store =
  events :: "oid \<rightharpoonup> event"
  users :: "oid \<rightharpoonup> user"
  tickets :: "ticket list"
  payments :: "payment list"

section \<open>Store operations\<close>

text \<open>\<^verbatim>\<open>Event.findByIdAndUpdate(id, { $inc: { ticketsSold: d } })\<close>: no document, no change.\<close>

definition inc_ticketsSold :: "store \<Rightarrow> oid \<Rightarrow> int \<Rightarrow> store" where
  "inc_ticketsSold s i d =
     (case events s i of
        None \<Rightarrow> s
      | Some e \<Rightarrow> s\<lparr>events := (events s)(i \<mapsto> e\<lparr>ticketsSold := ticketsSold e + d\<rparr>)\<rparr>)"

text \<open>
  The unique indexes of the ticket collection. The paths \<^verbatim>\<open>ticketNumber\<close>,
  \<^verbatim>\<open>qrCodeUrl\<close> and \<^verbatim>\<open>qrCodeData\<close> are declared \<^verbatim>\<open>unique: true\<close>. The compound index
  on \<^verbatim>\<open>eventId\<close> and \<^verbatim>\<open>attendeeId\<close> is declared twice: first plain, among the
  indexes for performance, and then with \<^verbatim>\<open>{ unique: true }\<close>. Both declarations name
  the same index (\<^verbatim>\<open>eventId_1_attendeeId_1\<close>); the database builds the first and
  refuses the second, whose options differ. So no index keeps the pair of event and
  attendee unique, and an insert is refused for one of the three single keys only.
\<close>

definition index_clash :: "ticket \<Rightarrow> ticket \<Rightarrow> bool" where
  "index_clash t u =
     (ticketNumber u = ticketNumber t \<or> qrCodeUrl u = qrCodeUrl t \<or>
      qrCodeData u = qrCodeData t)"

text \<open>A new document's \<^verbatim>\<open>_id\<close>: an ObjectId no stored ticket has.\<close>

definition fresh_tid :: "ticket list \<Rightarrow> oid" where
  "fresh_tid ts = Suc (fold max (map tid ts) 0)"

text \<open>
  \<^verbatim>\<open>ticket.save()\<close> of a new document: the insert is refused (a duplicate-key error)
  when a unique index already holds one of its keys.
\<close>

definition insert_ticket :: "store \<Rightarrow> ticket \<Rightarrow> store option" where
  "insert_ticket s t =
     (if list_ex (index_clash t) (tickets s) then None
      else Some (s\<lparr>tickets := tickets s @ [t]\<rparr>))"

text \<open>The update of one ticket: the stored document of that \<^verbatim>\<open>_id\<close> is replaced.\<close>

definition replace_ticket :: "store \<Rightarrow> ticket \<Rightarrow> store" where
  "replace_ticket s t = s\<lparr>tickets := map (\<lambda>u. if tid u = tid t then t else u) (tickets s)\<rparr>"

text \<open>
  \<^verbatim>\<open>ticket.save()\<close> of a loaded document \<open>t\<close> that the handler has turned into \<open>t'\<close>.
  A document with no modified path is not written. Otherwise the save sets
  \<^verbatim>\<open>updatedAt\<close> to its own clock (\<^verbatim>\<open>timestamps: true\<close>) and the stored document is
  replaced.
\<close>

definition save_ticket :: "store \<Rightarrow> date \<Rightarrow> ticket \<Rightarrow> ticket \<Rightarrow> store" where
  "save_ticket s saved t t' =
     (if t' = t then s else replace_ticket s (t'\<lparr>updatedAt := saved\<rparr>))"

section \<open>Booking (\<^verbatim>\<open>bookTicket\<close>)\<close>

text \<open>Decimal rendering of a number inside a template string.\<close>

fun dec :: "nat \<Rightarrow> string" where
  "dec n = (if n < 10 then [''0123456789'' ! n] else dec (n div 10) @ [''0123456789'' ! (n mod 10)])"

declare dec.simps [simp del]

definition show_int :: "int \<Rightarrow> string" where
  "show_int i = (if i < 0 then ''-'' @ dec (nat (- i)) else dec (nat i))"

text \<open>
  What a booking request reads from outside the database: the clock at the start check
  (\<^verbatim>\<open>new Date()\<close>), the clock inside the ticket number (\<^verbatim>\<open>Date.now()\<close>), the clock
  of the new document's \<^verbatim>\<open>bookingDate\<close> default, the clock of the insert (it becomes
  \<^verbatim>\<open>createdAt\<close> and \<^verbatim>\<open>updatedAt\<close>), \<^verbatim>\<open>Math.floor(Math.random() * 1000)\<close>, the hex
  string of \<^verbatim>\<open>crypto.randomBytes(32)\<close> and the data URL \<^verbatim>\<open>QRCode.toDataURL\<close> returns.
\<close>

record book_env =
  clockCheck :: date
  clockNumber :: date
  clockCreated :: date
  clockSaved :: date
  random1000 :: nat
  randomHex :: string
  qrDataUrl :: string

datatype book_response =
    EventNotFound
  | NotAvailableForBooking
  | AlreadyStarted
  | SoldOut
  | AlreadyHaveTicket
  | FreeTicketBooked "ticket option"
  | ProceedToPayment rat string
  | ServerErrorBooking

definition ticketNumber_of :: "book_env \<Rightarrow> string" where
  "ticketNumber_of env = ''TCK'' @ show_int (clockNumber env) @ dec (random1000 env)"

definition default_verification :: verification where
  "default_verification =
     \<lparr>isScanned = False, scannedAt = None, scannedBy = None, entryTime = None,
      exitTime = None, scanCount = 0\<rparr>"

definition default_checkIn :: checkInStatus where
  "default_checkIn =
     \<lparr>isCheckedIn = False, checkInTime = None, checkedInBy = None, checkInLocation = None\<rparr>"

definition free_ticket :: "store \<Rightarrow> book_env \<Rightarrow> oid \<Rightarrow> oid \<Rightarrow> attendeeInfo \<Rightarrow> ticket" where
  "free_ticket s env eid aid ai =
     \<lparr>tid = fresh_tid (tickets s), eventId = eid, attendeeId = aid,
      ticketNumber = ticketNumber_of env, qrCodeUrl = qrDataUrl env,
      qrCodeData = randomHex env, paymentId = ''FREE_TICKET'', pricePaid = 0,
      paymentStatus = PaymentCompleted, status = Active, checkIn = default_checkIn,
      bookingDate = clockCreated env, info = ai, verification = default_verification,
      staffNotes = [], createdAt = clockSaved env, updatedAt = clockSaved env\<rparr>"

definition bookTicket ::
  "store \<Rightarrow> book_env \<Rightarrow> oid \<Rightarrow> oid \<Rightarrow> attendeeInfo \<Rightarrow> book_response \<times> store" where
  "bookTicket s env eid aid ai =
     (case events s eid of
        None \<Rightarrow> (EventNotFound, s)
      | Some e \<Rightarrow>
          if eventStatus e \<noteq> Published then (NotAvailableForBooking, s)
          else if startDateTime e \<le> clockCheck env then (AlreadyStarted, s)
          else if ticketsSold e \<ge> capacity e then (SoldOut, s)
          else if find (\<lambda>t. eventId t = eid \<and> attendeeId t = aid \<and> status t \<noteq> Cancelled)
                    (tickets s) \<noteq> None
            then (AlreadyHaveTicket, s)
          else if isFree (pricing e) then
            (let t = free_ticket s env eid aid ai in
               case insert_ticket s t of
                 None \<Rightarrow> (ServerErrorBooking, s)
               | Some s1 \<Rightarrow>
                   (let s2 = inc_ticketsSold s1 eid 1 in
                      (FreeTicketBooked (find (\<lambda>u. tid u = tid t) (tickets s2)), s2)))
          else (ProceedToPayment (price (pricing e)) (currency (pricing e)), s))"

section \<open>Booking, one database operation at a time\<close>

text \<open>
  \<^verbatim>\<open>bookTicket\<close> is an \<^verbatim>\<open>async\<close> function without a transaction or a lock: it awaits
  the database five times (\<^verbatim>\<open>Event.findById\<close>, \<^verbatim>\<open>Ticket.findOne\<close>, \<^verbatim>\<open>ticket.save\<close>,
  \<^verbatim>\<open>Event.findByIdAndUpdate\<close>, \<^verbatim>\<open>Ticket.findById\<close>), and between two of its
  operations the operations of other requests may run. A request in progress holds what
  it has read or written so far; each step is one database operation followed by the
  handler's own code up to the next one.
\<close>

record book_request =
  bookEnv :: book_env
  bookEvent :: oid
  bookAttendee :: oid
  bookInfo :: attendeeInfo

datatype book_phase =
    Started
  | EventRead event
  | NoDuplicate event
  | Inserted ticket
  | Counted ticket
  | Answered book_response

definition book_step :: "store \<Rightarrow> book_request \<Rightarrow> book_phase \<Rightarrow> book_phase \<times> store" where
  "book_step s r ph =
     (case ph of
        Started \<Rightarrow>
          (case events s (bookEvent r) of
             None \<Rightarrow> (Answered EventNotFound, s)
           | Some e \<Rightarrow>
               if eventStatus e \<noteq> Published then (Answered NotAvailableForBooking, s)
               else if startDateTime e \<le> clockCheck (bookEnv r) then (Answered AlreadyStarted, s)
               else if ticketsSold e \<ge> capacity e then (Answered SoldOut, s)
               else (EventRead e, s))
      | EventRead e \<Rightarrow>
          if find (\<lambda>t. eventId t = bookEvent r \<and> attendeeId t = bookAttendee r \<and>
                        status t \<noteq> Cancelled) (tickets s) \<noteq> None
            then (Answered AlreadyHaveTicket, s)
          else if isFree (pricing e) then (NoDuplicate e, s)
          else (Answered (ProceedToPayment (price (pricing e)) (currency (pricing e))), s)
      | NoDuplicate e \<Rightarrow>
          (let t = free_ticket s (bookEnv r) (bookEvent r) (bookAttendee r) (bookInfo r) in
             case insert_ticket s t of
               None \<Rightarrow> (Answered ServerErrorBooking, s)
             | Some s1 \<Rightarrow> (Inserted t, s1))
      | Inserted t \<Rightarrow> (Counted t, inc_ticketsSold s (bookEvent r) 1)
      | Counted t \<Rightarrow> (Answered (FreeTicketBooked (find (\<lambda>u. tid u = tid t) (tickets s))), s)
      | Answered a \<Rightarrow> (Answered a, s))"

text \<open>
  Several requests in progress over one database. A schedule names, step by step, the
  request whose next operation runs.
\<close>

definition step_at ::
  "book_request list \<Rightarrow> nat \<Rightarrow> store \<times> book_phase list \<Rightarrow> store \<times> book_phase list" where
  "step_at rs i c =
     (if i < length rs \<and> i < length (snd c)
      then (case book_step (fst c) (rs ! i) (snd c ! i) of
              (ph, s') \<Rightarrow> (s', (snd c)[i := ph]))
      else c)"

definition run_schedule ::
  "book_request list \<Rightarrow> nat list \<Rightarrow> store \<Rightarrow> store \<times> book_phase list" where
  "run_schedule rs sched s = fold (step_at rs) sched (s, map (\<lambda>r. Started) rs)"

text \<open>The requests run one after the other, each to its answer before the next begins.\<close>

definition book :: "store \<Rightarrow> book_request \<Rightarrow> book_response \<times> store" where
  "book s r = bookTicket s (bookEnv r) (bookEvent r) (bookAttendee r) (bookInfo r)"

fun book_serial :: "store \<Rightarrow> book_request list \<Rightarrow> book_response list \<times> store" where
  "book_serial s [] = ([], s)"
| "book_serial s (r # rs) =
     (fst (book s r) # fst (book_serial (snd (book s r)) rs),
      snd (book_serial (snd (book s r)) rs))"

text \<open>The schedule of \<open>n\<close> requests that do not overlap: the five steps of each in turn.\<close>

definition one_by_one :: "nat \<Rightarrow> nat list" where
  "one_by_one n = concat (map (\<lambda>i. [i, i, i, i, i]) [0..<n])"

text \<open>An answer, and a request in progress, that has booked a ticket.\<close>

definition succeeded :: "book_response \<Rightarrow> bool" where
  "succeeded a = (case a of FreeTicketBooked x \<Rightarrow> True | _ \<Rightarrow> False)"

definition won :: "book_phase \<Rightarrow> bool" where
  "won ph = (case ph of Answered a \<Rightarrow> succeeded a | _ \<Rightarrow> False)"

section \<open>Numbers\<close>

text \<open>
  A JavaScript Number is an IEEE 754 binary64 value, and division and multiplication
  round their exact result to the nearest such value, a tie going to the even
  significand. A value is modelled by the rational it denotes. The binade of a positive
  \<open>x\<close> is the exponent \<open>e\<close> with \<open>2 powi e \<le> x < 2 powi (e + 1)\<close>; the values
  of that binade are the multiples of \<open>2 powi (e - 52)\<close>. Overflow and subnormal
  values are left out: the quotients the handlers form are of integers below
  \<open>2 ^ 53\<close> (array lengths, differences of dates).
\<close>

definition round_even :: "rat \<Rightarrow> int" where
  "round_even x =
     (let n = \<lfloor>x\<rfloor>; r = x - of_int n
      in if r < 1 / 2 then n else if 1 / 2 < r then n + 1 else if even n then n else n + 1)"

definition binade :: "rat \<Rightarrow> int" where
  "binade x =
     (let (p, q) = quotient_of x; k = bitlen p - bitlen q
      in if 2 powi k \<le> x then k else k - 1)"

definition double :: "rat \<Rightarrow> rat" where
  "double x =
     (if x = 0 then 0
      else sgn x * of_int (round_even (\<bar>x\<bar> / 2 powi (binade \<bar>x\<bar> - 52))) *
           2 powi (binade \<bar>x\<bar> - 52))"

text \<open>
  \<^verbatim>\<open>x.toFixed(2)\<close>: the decimal with two fraction digits nearest to the exact value of
  \<open>x\<close>, the larger one of two equally near (for a magnitude below \<open>10\<^sup>2\<^sup>1\<close>); here as
  the rational the string denotes. \<^verbatim>\<open>parseFloat\<close> of such a string is the nearest
  binary64 value.
\<close>

definition toFixed2 :: "rat \<Rightarrow> rat" where
  "toFixed2 x =
     (if x < 0 then - (of_int \<lfloor>- x * 100 + 1 / 2\<rfloor> / 100)
      else of_int \<lfloor>x * 100 + 1 / 2\<rfloor> / 100)"

definition parseFloat :: "rat \<Rightarrow> rat" where
  "parseFloat x = double x"

section \<open>Cancellation (\<^verbatim>\<open>cancelTicket\<close>)\<close>

datatype cancel_response =
    TicketNotFound
  | TooLateToCancel
  | TicketCancelled rat
  | ServerErrorCancelling

text \<open>\<^verbatim>\<open>(new Date(start) - new Date()) / (1000 * 60 * 60)\<close>\<close>

definition hoursUntilEvent :: "date \<Rightarrow> date \<Rightarrow> rat" where
  "hoursUntilEvent start now = double (of_int (start - now) / (1000 * 60 * 60))"

text \<open>\<^verbatim>\<open>reason || fallback\<close>: the fallback replaces a missing or empty reason.\<close>

definition reason_or :: "string option \<Rightarrow> string \<Rightarrow> string" where
  "reason_or r d = (case r of None \<Rightarrow> d | Some x \<Rightarrow> if x = [] then d else x)"

definition cancellation_of :: "ticket \<Rightarrow> date \<Rightarrow> string option \<Rightarrow> cancellation" where
  "cancellation_of t now r =
     \<lparr>isCancelled = True, cancellationDate = now,
      cancellationReason = reason_or r ''Cancelled by user'', refundAmount = pricePaid t\<rparr>"

text \<open>
  The document in the handler's hands once it has set the status and assigned the
  cancellation object: the ticket's paths and, beside them, the property
  \<^verbatim>\<open>cancellation\<close>. \<^verbatim>\<open>save()\<close> writes the paths of the schema, of which the property
  is none.
\<close>

type_synonym cancelled_document = "ticket \<times> cancellation"

definition schema_paths :: "cancelled_document \<Rightarrow> ticket" where
  "schema_paths doc = fst doc"

text \<open>
  \<^verbatim>\<open>Payment.findOneAndUpdate({ paymentId }, { status: 'refunded', 'refund.isRefunded': true, ... })\<close>:
  the first payment of that id is marked; none, no change.
\<close>

fun mark_refunded :: "payment list \<Rightarrow> string \<Rightarrow> refund \<Rightarrow> payment list" where
  "mark_refunded [] pid r = []"
| "mark_refunded (p # ps) pid r =
     (if payId p = pid then p\<lparr>payStatus := Refunded, payRefund := r\<rparr> # ps
      else p # mark_refunded ps pid r)"

definition refund_of :: "ticket \<Rightarrow> date \<Rightarrow> string option \<Rightarrow> refund" where
  "refund_of t now r =
     \<lparr>isRefunded = True, refundedAmount = Some (pricePaid t), refundDate = Some now,
      refundReason = Some (reason_or r ''Ticket cancelled'')\<rparr>"

text \<open>
  The clocks a cancellation reads: at the check of the 24 hours, for the cancellation
  date, at the save of the ticket and for the refund date.
\<close>

record cancel_clock =
  clockHours :: date
  clockCancelled :: date
  clockUpdated :: date
  clockRefunded :: date

text \<open>
  The handler's outputs are its response and the database. The response takes
  \<^verbatim>\<open>refundAmount\<close> from the ticket's \<^verbatim>\<open>pricePaid\<close>; the cancellation object is in
  neither.
\<close>

definition cancelTicket ::
  "store \<Rightarrow> cancel_clock \<Rightarrow> oid \<Rightarrow> oid \<Rightarrow> string option \<Rightarrow> cancel_response \<times> store" where
  "cancelTicket s ck ticketId aid r =
     (case find (\<lambda>t. tid t = ticketId \<and> attendeeId t = aid \<and> status t = Active) (tickets s) of
        None \<Rightarrow> (TicketNotFound, s)
      | Some t \<Rightarrow>
          (case events s (eventId t) of
             None \<Rightarrow> (ServerErrorCancelling, s)
           | Some e \<Rightarrow>
               if hoursUntilEvent (startDateTime e) (clockHours ck) < 24 then (TooLateToCancel, s)
               else
                 (let t' = t\<lparr>status := Cancelled\<rparr>;
                      doc = (t', cancellation_of t' (clockCancelled ck) r);
                      s1 = save_ticket s (clockUpdated ck) t (schema_paths doc);
                      s2 = inc_ticketsSold s1 (eventId t) (- 1);
                      s3 = (if pricePaid t' > 0
                            then s2\<lparr>payments :=
                                   mark_refunded (payments s2) (paymentId t')
                                     (refund_of t' (clockRefunded ck) r)\<rparr>
                            else s2)
                  in (TicketCancelled (pricePaid t'), s3))))"

section \<open>Check-in (\<^verbatim>\<open>scanTicket\<close>)\<close>

text \<open>
  The body of a scan request. A field the client leaves out is \<open>None\<close>; JavaScript
  takes a missing or empty string for false.
\<close>

record scan_request =
  reqTicketNumber :: "string option"
  reqQrCodeData :: "string option"
  reqEventId :: "oid option"
  reqAction :: "string option"

definition truthy :: "string option \<Rightarrow> bool" where
  "truthy x = (case x of None \<Rightarrow> False | Some v \<Rightarrow> v \<noteq> [])"

text \<open>The filter object handed to \<^verbatim>\<open>Ticket.findOne\<close>: a field that is set must match.\<close>

record ticket_query =
  qTicketNumber :: "string option"
  qQrCodeData :: "string option"
  qEventId :: "oid option"

definition build_query :: "scan_request \<Rightarrow> ticket_query" where
  "build_query rq =
     \<lparr>qTicketNumber = (if truthy (reqTicketNumber rq) then reqTicketNumber rq else None),
      qQrCodeData =
        (if truthy (reqTicketNumber rq) then None
         else if truthy (reqQrCodeData rq) then reqQrCodeData rq else None),
      qEventId = reqEventId rq\<rparr>"

definition matches :: "ticket_query \<Rightarrow> ticket \<Rightarrow> bool" where
  "matches q t =
     ((case qTicketNumber q of None \<Rightarrow> True | Some n \<Rightarrow> ticketNumber t = n) \<and>
      (case qQrCodeData q of None \<Rightarrow> True | Some d \<Rightarrow> qrCodeData t = d) \<and>
      (case qEventId q of None \<Rightarrow> True | Some i \<Rightarrow> eventId t = i))"

record scan_data =
  dataTicketNumber :: string
  dataAttendeeName :: string
  dataAttendeeEmail :: string
  dataEventTitle :: string
  dataEventStart :: date
  dataVerification :: verification
  dataScanCount :: int
  isFirstScan :: bool

datatype scan_response =
    TicketOrQrRequired
  | ScanTicketNotFound
  | NotAssignedToEvent
  | TicketInactive ticket_status
  | EventNotStarted
  | EventEnded
  | ExitForUnscanned
  | ScanRecorded string scan_data
  | ServerErrorScanning

text \<open>\<^verbatim>\<open>action = 'entry'\<close> in the destructuring of the body: the default of a missing field.\<close>

definition the_action :: "scan_request \<Rightarrow> string" where
  "the_action rq = (case reqAction rq of None \<Rightarrow> ''entry'' | Some a \<Rightarrow> a)"

text \<open>\<^verbatim>\<open>assignedStaff.some(id => id.toString() === staffId.toString())\<close>\<close>

definition isAssigned :: "event \<Rightarrow> oid \<Rightarrow> bool" where
  "isAssigned e staffId = list_ex (\<lambda>m. m = staffId) (assignedStaff e)"

text \<open>\<^verbatim>\<open>count || 0\<close>\<close>

definition or_zero :: "int \<Rightarrow> int" where
  "or_zero n = (if n = 0 then 0 else n)"

text \<open>The update of the verification object, by action; any other action changes nothing.\<close>

definition record_scan :: "verification \<Rightarrow> string \<Rightarrow> date \<Rightarrow> oid \<Rightarrow> verification" where
  "record_scan v action now staffId =
     (if action = ''entry'' then
        (if isScanned v then v\<lparr>scanCount := or_zero (scanCount v) + 1\<rparr>
         else v\<lparr>isScanned := True, scannedAt := Some now, scannedBy := Some staffId,
                entryTime := Some now, scanCount := 1\<rparr>)
      else if action = ''exit'' then v\<lparr>exitTime := Some now\<rparr>
      else v)"

text \<open>
  The handler reads the clock once (\<open>now\<close>), for the checks of the event's window and
  for the dates it records; the save of the ticket has its own clock (\<open>saved\<close>). The
  populated references of the ticket are read without a check: a ticket whose event is
  gone fails the request before any update, one whose attendee is gone fails it while
  the answer is built, after the ticket was saved.
\<close>

definition scanTicket ::
  "store \<Rightarrow> date \<Rightarrow> date \<Rightarrow> oid \<Rightarrow> scan_request \<Rightarrow> scan_response \<times> store" where
  "scanTicket s now saved staffId rq =
     (let action = the_action rq in
      if \<not> truthy (reqTicketNumber rq) \<and> \<not> truthy (reqQrCodeData rq)
        then (TicketOrQrRequired, s)
      else
        (case find (matches (build_query rq)) (tickets s) of
           None \<Rightarrow> (ScanTicketNotFound, s)
         | Some t \<Rightarrow>
             (case events s (eventId t) of
                None \<Rightarrow> (ServerErrorScanning, s)
              | Some e \<Rightarrow>
                  if \<not> isAssigned e staffId then (NotAssignedToEvent, s)
                  else if status t \<noteq> Active then (TicketInactive (status t), s)
                  else if action = ''entry'' \<and> now < startDateTime e then (EventNotStarted, s)
                  else if now > endDateTime e then (EventEnded, s)
                  else if action = ''exit'' \<and> \<not> isScanned (verification t)
                    then (ExitForUnscanned, s)
                  else
                    (let v = record_scan (verification t) action now staffId;
                         s' = save_ticket s saved t (t\<lparr>verification := v\<rparr>)
                     in case users s (attendeeId t) of
                          None \<Rightarrow> (ServerErrorScanning, s')
                        | Some u \<Rightarrow>
                            (ScanRecorded action
                               \<lparr>dataTicketNumber = ticketNumber t,
                                dataAttendeeName = firstName u @ '' '' @ lastName u,
                                dataAttendeeEmail = email u,
                                dataEventTitle = title e,
                                dataEventStart = startDateTime e,
                                dataVerification = v,
                                dataScanCount = scanCount v,
                                isFirstScan = (scanCount v = 1)\<rparr>, s')))))"

text \<open>
  A sequence of scan requests, each with its two clocks (of the handler and of the save)
  and its staff member.
\<close>

fun run_scans :: "store \<Rightarrow> (date \<times> date \<times> oid \<times> scan_request) list \<Rightarrow> store" where
  "run_scans s [] = s"
| "run_scans s ((now, saved, staffId, rq) # rs) =
     run_scans (snd (scanTicket s now saved staffId rq)) rs"

text \<open>
  The answers of a sequence of scans with one request body, each scan with its clocks and
  its staff member; what an answer says about the count; and the scans a ticket's
  verification object has counted.
\<close>

fun entry_scans ::
  "store \<Rightarrow> scan_request \<Rightarrow> (date \<times> date \<times> oid) list \<Rightarrow> scan_response list" where
  "entry_scans s rq [] = []"
| "entry_scans s rq ((now, saved, staffId) # xs) =
     fst (scanTicket s now saved staffId rq) #
     entry_scans (snd (scanTicket s now saved staffId rq)) rq xs"

definition scan_summary :: "scan_response \<Rightarrow> (int \<times> bool) option" where
  "scan_summary r = (case r of ScanRecorded a d \<Rightarrow> Some (dataScanCount d, isFirstScan d) | _ \<Rightarrow> None)"

definition counted_so_far :: "ticket \<Rightarrow> int" where
  "counted_so_far t = (if isScanned (verification t) then scanCount (verification t) else 0)"

section \<open>Sequences of requests\<close>

text \<open>
  The requests that write to the ticket ledger, each with what it reads from outside the
  database, and a sequence of them run one after the other.
\<close>

datatype ledger_op =
    Book book_env oid oid attendeeInfo
  | Cancel cancel_clock oid oid "string option"
  | Scan date date oid scan_request

fun apply_op :: "store \<Rightarrow> ledger_op \<Rightarrow> store" where
  "apply_op s (Book env eid aid ai) = snd (bookTicket s env eid aid ai)"
| "apply_op s (Cancel ck ticketId aid r) = snd (cancelTicket s ck ticketId aid r)"
| "apply_op s (Scan now saved staffId rq) = snd (scanTicket s now saved staffId rq)"

definition run_ops :: "store \<Rightarrow> ledger_op list \<Rightarrow> store" where
  "run_ops s ops = fold (\<lambda>op st. apply_op st op) ops s"

section \<open>Attendance (\<^verbatim>\<open>getEventAttendance\<close>)\<close>

record statistics =
  totalTickets :: int
  scannedTickets :: int
  unscannedTickets :: int
  attendanceRate :: rat

datatype attendance_response =
    AttendanceEventNotFound
  | AttendanceNotAssigned
  | Attendance statistics
  | ServerErrorAttendance

text \<open>
  \<^verbatim>\<open>totalTickets > 0 ? ((scannedTickets / totalTickets) * 100).toFixed(2) : 0\<close>, handed to
  \<^verbatim>\<open>parseFloat\<close> when the answer is built: the quotient and the product are binary64
  operations.
\<close>

definition attendanceRate_of :: "int \<Rightarrow> int \<Rightarrow> rat" where
  "attendanceRate_of scanned tot =
     (if tot > 0
      then parseFloat (toFixed2 (double (double (of_int scanned / of_int tot) * 100)))
      else 0)"

text \<open>
  The statistics block of the answer. The listings beside it (\<^verbatim>\<open>recentScans\<close>,
  \<^verbatim>\<open>allTickets\<close>) read the name of every listed ticket's attendee, which fails the
  request when one of them is gone; the listings themselves are not modelled.
\<close>

definition getEventAttendance :: "store \<Rightarrow> oid \<Rightarrow> oid \<Rightarrow> attendance_response" where
  "getEventAttendance s eid staffId =
     (case events s eid of
        None \<Rightarrow> AttendanceEventNotFound
      | Some e \<Rightarrow>
          if \<not> isAssigned e staffId then AttendanceNotAssigned
          else
            (let ts = filter (\<lambda>t. eventId t = eid \<and> status t = Active) (tickets s);
                 total = int (length ts);
                 scanned = int (length (filter (\<lambda>t. isScanned (verification t)) ts));
                 unscanned = total - scanned;
                 rate = attendanceRate_of scanned total
             in if list_ex (\<lambda>t. users s (attendeeId t) = None) ts then ServerErrorAttendance
                else Attendance
                  \<lparr>totalTickets = total, scannedTickets = scanned,
                   unscannedTickets = unscanned, attendanceRate = rate\<rparr>))"

section \<open>Properties of the store\<close>

text \<open>The number of active tickets of an event.\<close>

definition active_count :: "ticket list \<Rightarrow> oid \<Rightarrow> int" where
  "active_count ts i = int (length (filter (\<lambda>t. eventId t = i \<and> status t = Active) ts))"

text \<open>
  The ledger is consistent when no two tickets share an \<^verbatim>\<open>_id\<close> and every event's
  counter is at least the number of its active tickets and at most its capacity. A new
  event (\<^verbatim>\<open>ticketsSold\<close> defaults to 0, \<^verbatim>\<open>capacity\<close> is at least 1) without tickets
  is.
\<close>

definition ledger_consistent :: "store \<Rightarrow> bool" where
  "ledger_consistent s \<longleftrightarrow>
     distinct (map tid (tickets s)) \<and>
     (\<forall>i e. events s i = Some e \<longrightarrow>
        active_count (tickets s) i \<le> ticketsSold e \<and> ticketsSold e \<le> capacity e)"

text \<open>A ticket that is marked scanned has been counted at least once.\<close>

definition scan_counted :: "ticket \<Rightarrow> bool" where
  "scan_counted t \<longleftrightarrow> (isScanned (verification t) \<longrightarrow> 1 \<le> scanCount (verification t))"

text \<open>
  What the database keeps of its own accord: no two tickets share an \<^verbatim>\<open>_id\<close> or the key
  of a unique index.
\<close>

definition indexes_hold :: "store \<Rightarrow> bool" where
  "indexes_hold s \<longleftrightarrow>
     distinct (map tid (tickets s)) \<and>
     distinct (map ticketNumber (tickets s)) \<and>
     distinct (map qrCodeUrl (tickets s)) \<and>
     distinct (map qrCodeData (tickets s))"

text \<open>
  The generated keys of a booking are new when no stored ticket holds the ticket number,
  the QR code URL or the QR code data.
\<close>

definition keys_new :: "store \<Rightarrow> book_env \<Rightarrow> bool" where
  "keys_new s env \<longleftrightarrow>
     \<not> list_ex (\<lambda>u. ticketNumber u = ticketNumber_of env \<or> qrCodeUrl u = qrDataUrl env \<or>
                      qrCodeData u = randomHex env) (tickets s)"

section \<open>Example data\<close>

text \<open>
  A free, published event of capacity 2 with two assigned staff members (3 and 4) and
  three attendees (7, 8 and 9), no ticket booked yet.
\<close>

definition demo_event :: event where
  "demo_event =
     \<lparr>title = ''Meetup'', startDateTime = 200000000, endDateTime = 203600000,
      pricing = \<lparr>isFree = True, price = 0, currency = ''USD''\<rparr>,
      assignedStaff = [3, 4], capacity = 2, ticketsSold = 0, eventStatus = Published\<rparr>"

definition demo_users :: "oid \<rightharpoonup> user" where
  "demo_users =
     [7 \<mapsto> \<lparr>firstName = ''Ann'', lastName = ''A'', email = ''ann@x''\<rparr>,
      8 \<mapsto> \<lparr>firstName = ''Bob'', lastName = ''B'', email = ''bob@x''\<rparr>,
      9 \<mapsto> \<lparr>firstName = ''Cy'', lastName = ''C'', email = ''cy@x''\<rparr>]"

definition demo_store :: store where
  "demo_store = \<lparr>events = [1 \<mapsto> demo_event], users = demo_users, tickets = [], payments = []\<rparr>"

text \<open>A booking whose clocks all read \<open>now\<close>, and a cancellation likewise.\<close>

definition demo_env :: "date \<Rightarrow> nat \<Rightarrow> string \<Rightarrow> book_env" where
  "demo_env now r h =
     \<lparr>clockCheck = now, clockNumber = now, clockCreated = now, clockSaved = now,
      random1000 = r, randomHex = h, qrDataUrl = ''data:'' @ h\<rparr>"

definition demo_clock :: "date \<Rightarrow> cancel_clock" where
  "demo_clock now =
     \<lparr>clockHours = now, clockCancelled = now, clockUpdated = now, clockRefunded = now\<rparr>"

definition no_info :: attendeeInfo where
  "no_info =
     \<lparr>specialRequirements = None, dietaryRestrictions = None,
      emergencyContactName = None, emergencyContactPhone = None\<rparr>"

text \<open>A scan request by ticket number alone.\<close>

definition demo_rq :: scan_request where
  "demo_rq =
     \<lparr>reqTicketNumber = Some ''TCK1'', reqQrCodeData = None, reqEventId = None,
      reqAction = None\<rparr>"

text \<open>
  Attendees 7 and 8 book, attendee 9 finds the event sold out, a staff member tries a scan
  before the event, attendee 7 cancels more than a day ahead, attendee 9 books.
\<close>

definition demo_ops :: "ledger_op list" where
  "demo_ops =
     [Book (demo_env 1000 5 ''aa'') 1 7 no_info,
      Book (demo_env 2000 6 ''bb'') 1 8 no_info,
      Book (demo_env 3000 7 ''cc'') 1 9 no_info,
      Scan 3500 3501 3 (demo_rq\<lparr>reqTicketNumber := Some ''TCK10005''\<rparr>),
      Cancel (demo_clock 4000) 1 7 None,
      Book (demo_env 5000 8 ''dd'') 1 9 no_info]"

text \<open>
  The tickets of the example: all of event 1, free, booked at 1000, with keys made from
  the id; the last argument is the time of the last write.
\<close>

definition demo_ticket :: "oid \<Rightarrow> oid \<Rightarrow> ticket_status \<Rightarrow> verification \<Rightarrow> date \<Rightarrow> ticket" where
  "demo_ticket i aid st v upd =
     \<lparr>tid = i, eventId = 1, attendeeId = aid, ticketNumber = ''TCK'' @ dec i,
      qrCodeUrl = ''data:'' @ dec i, qrCodeData = ''qr'' @ dec i, paymentId = ''FREE_TICKET'',
      pricePaid = 0, paymentStatus = PaymentCompleted, status = st, checkIn = default_checkIn,
      bookingDate = 1000, info = no_info, verification = v, staffNotes = [],
      createdAt = 1000, updatedAt = upd\<rparr>"

text \<open>The example event after attendees 7 and 8 have booked.\<close>

definition demo_booked :: store where
  "demo_booked =
     demo_store\<lparr>events := [1 \<mapsto> demo_event\<lparr>ticketsSold := 2\<rparr>],
                tickets := [demo_ticket 1 7 Active default_verification 1000,
                            demo_ticket 2 8 Active default_verification 1000]\<rparr>"

text \<open>Ticket 1 of the example after staff member 3 scanned it at the start of the event.\<close>

definition first_scan :: verification where
  "first_scan =
     \<lparr>isScanned = True, scannedAt = Some 200000000, scannedBy = Some 3,
      entryTime = Some 200000000, exitTime = None, scanCount = 1\<rparr>"

definition demo_scanned :: store where
  "demo_scanned =
     demo_booked\<lparr>tickets := [demo_ticket 1 7 Active first_scan 200000000,
                              demo_ticket 2 8 Active default_verification 1000]\<rparr>"

text \<open>A scan request with the number of ticket 1 and the QR code data of ticket 2.\<close>

definition both_rq :: scan_request where
  "both_rq =
     \<lparr>reqTicketNumber = Some ''TCK1'', reqQrCodeData = Some ''qr2'', reqEventId = None,
      reqAction = None\<rparr>"

text \<open>Attendee 7 books the new event, cancels a day ahead and books again.\<close>

definition demo_rebook :: "ledger_op list" where
  "demo_rebook =
     [Book (demo_env 1000 5 ''aa'') 1 7 no_info, Cancel (demo_clock 4000) 1 7 None]"



text \<open>The same event with one seat, and a request for it.\<close>

definition last_seat :: store where
  "last_seat = demo_store\<lparr>events := [1 \<mapsto> demo_event\<lparr>capacity := 1\<rparr>]\<rparr>"

definition seat_request :: "oid \<Rightarrow> date \<Rightarrow> nat \<Rightarrow> string \<Rightarrow> book_request" where
  "seat_request aid now r h =
     \<lparr>bookEnv = demo_env now r h, bookEvent = 1, bookAttendee = aid, bookInfo = no_info\<rparr>"

text \<open>Two requests in progress whose operations alternate.\<close>

definition alternating :: "nat list" where
  "alternating = [0, 1, 0, 1, 0, 1, 0, 1, 0, 1]"

section \<open>Lemmas about the store operations\<close>

lemma fold_max_ge: "a \<le> fold max xs (a::nat)"
  by (induction xs arbitrary: a) (auto intro: order_trans [OF max.cobounded2])

lemma fold_max_mem: "x \<in> set xs \<Longrightarrow> x \<le> fold max xs (a::nat)"
proof (induction xs arbitrary: a)
  case Nil
  then show ?case by simp
next
  case (Cons y ys)
  show ?case
  proof (cases "x = y")
    case True
    have "y \<le> max y a" by simp
    also have "\<dots> \<le> fold max ys (max y a)" by (rule fold_max_ge)
    finally show ?thesis using True by simp
  next
    case False
    with Cons show ?thesis by simp
  qed
qed

lemma fresh_tid_new: "fresh_tid ts \<notin> tid ` set ts"
proof
  assume "fresh_tid ts \<in> tid ` set ts"
  then have "fresh_tid ts \<in> set (map tid ts)" by simp
  then have "fresh_tid ts \<le> fold max (map tid ts) 0" by (rule fold_max_mem)
  then show False by (simp add: fresh_tid_def)
qed

lemma active_count_append:
  "active_count (ts @ [t]) i = active_count ts i + (if eventId t = i \<and> status t = Active then 1 else 0)"
  by (simp add: active_count_def)

lemma distinct_tid_eq:
  "distinct (map tid ts) \<Longrightarrow> t \<in> set ts \<Longrightarrow> u \<in> set ts \<Longrightarrow> tid u = tid t \<Longrightarrow> u = t"
proof -
  assume "distinct (map tid ts)" "t \<in> set ts" "u \<in> set ts" "tid u = tid t"
  from this(1) have "inj_on tid (set ts)" by (simp add: distinct_map)
  from this \<open>tid u = tid t\<close> \<open>u \<in> set ts\<close> \<open>t \<in> set ts\<close> show "u = t" by (rule inj_onD)
qed

lemma replace_distinct:
  assumes "distinct (map tid ts)" "t \<in> set ts" "tid t' = tid t"
  shows "map (\<lambda>u. if tid u = tid t' then t' else u) ts = map (\<lambda>u. if u = t then t' else u) ts"
proof (rule map_cong [OF refl])
  fix u assume u: "u \<in> set ts"
  have "tid u = tid t \<longleftrightarrow> u = t"
    using distinct_tid_eq [OF assms(1,2) u] by blast
  then show "(if tid u = tid t' then t' else u) = (if u = t then t' else u)"
    by (simp add: assms(3))
qed

lemma replace_keeps_key:
  assumes "distinct (map tid ts)" "t \<in> set ts" "k t' = k t"
  shows "map k (map (\<lambda>u. if tid u = tid t then t' else u) ts) = map k ts"
proof -
  have "k (if tid u = tid t then t' else u) = k u" if "u \<in> set ts" for u
    using distinct_tid_eq [OF assms(1,2) that] assms(3) by auto
  then show ?thesis by (simp add: comp_def cong: map_cong)
qed

lemma cancel_count:
  "distinct (map tid ts) \<Longrightarrow> t \<in> set ts \<Longrightarrow> status t = Active \<Longrightarrow> status t' \<noteq> Active \<Longrightarrow>
   length (filter (\<lambda>t. eventId t = i \<and> status t = Active) ts) =
   length (filter (\<lambda>t. eventId t = i \<and> status t = Active)
     (map (\<lambda>u. if tid u = tid t then t' else u) ts)) +
   (if eventId t = i then 1 else 0)"
proof (induction ts)
  case Nil
  then show ?case by simp
next
  case (Cons u us)
  show ?case
  proof (cases "u = t")
    case True
    with Cons.prems have "tid t \<notin> tid ` set us" by simp
    then have same: "map (\<lambda>u. if tid u = tid t then t' else u) us = us"
      by (induction us) auto
    show ?thesis using True Cons.prems(3,4) by (simp only: list.map same) simp
  next
    case False
    with Cons.prems have mem: "t \<in> set us" and ne: "tid u \<noteq> tid t" and d: "distinct (map tid us)"
      by auto
    note IH = Cons.IH [OF d mem Cons.prems(3,4)]
    show ?thesis using ne by (simp only: list.map filter.simps if_False) (simp add: IH)
  qed
qed

lemma active_count_cancel:
  "distinct (map tid ts) \<Longrightarrow> t \<in> set ts \<Longrightarrow> status t = Active \<Longrightarrow> status t' \<noteq> Active \<Longrightarrow>
   active_count (map (\<lambda>u. if tid u = tid t then t' else u) ts) i =
   active_count ts i - (if eventId t = i then 1 else 0)"
  unfolding active_count_def by (subst cancel_count [where t = t and t' = t']) simp_all

lemma ledger_consistentD:
  "ledger_consistent s \<Longrightarrow> events s i = Some e \<Longrightarrow>
   active_count (tickets s) i \<le> ticketsSold e \<and> ticketsSold e \<le> capacity e"
  unfolding ledger_consistent_def by blast

lemma find_SomeD: "find P xs = Some x \<Longrightarrow> x \<in> set xs \<and> P x"
  by (induction xs) (auto split: if_splits)

lemma list_ex_mem: "x \<in> set xs \<Longrightarrow> P x \<Longrightarrow> list_ex P xs"
  by (auto simp: list_ex_iff)

lemma find_fresh: "tid t \<notin> tid ` set ts \<Longrightarrow> find (\<lambda>u. tid u = tid t) (ts @ [t]) = Some t"
  by (induction ts) auto

lemma find_tid_distinct:
  assumes "distinct (map tid ts)" "t \<in> set ts" "P t" "\<And>u. P u \<Longrightarrow> tid u = tid t"
  shows "find P ts = Some t"
  using assms(1,2)
proof (induction ts)
  case Nil
  then show ?case by simp
next
  case (Cons u us)
  show ?case
  proof (cases "P u")
    case True
    then have "tid u = tid t" by (rule assms(4))
    moreover have "u \<in> set (u # us)" by simp
    ultimately have "u = t"
      using Cons.prems by (intro distinct_tid_eq [of "u # us" t u])
    with True show ?thesis by simp
  next
    case False
    with Cons.prems assms(3) have "t \<in> set us" "distinct (map tid us)" by auto
    with Cons.IH False show ?thesis by simp
  qed
qed

lemma find_replace:
  assumes "find P ts = Some t" "P t'" "tid t' = tid t"
  shows "find P (map (\<lambda>u. if tid u = tid t' then t' else u) ts) = Some t'"
  using assms(1)
proof (induction ts)
  case Nil
  then show ?case by simp
next
  case (Cons u us)
  show ?case
  proof (cases "tid u = tid t'")
    case True
    then show ?thesis using assms(2) by simp
  next
    case False
    have "\<not> P u"
    proof
      assume "P u"
      with Cons.prems have "u = t" by simp
      with False assms(3) show False by simp
    qed
    with Cons.prems have "find P us = Some t" by simp
    then have "find P (map (\<lambda>u. if tid u = tid t' then t' else u) us) = Some t'"
      by (rule Cons.IH)
    with False \<open>\<not> P u\<close> show ?thesis by simp
  qed
qed

lemma save_ticket_changed:
  "t' \<noteq> t \<Longrightarrow> save_ticket s saved t t' = replace_ticket s (t'\<lparr>updatedAt := saved\<rparr>)"
  by (simp add: save_ticket_def)

lemma keys_new_iff:
  "keys_new s env \<longleftrightarrow> \<not> list_ex (index_clash (free_ticket s env eid aid ai)) (tickets s)"
proof -
  have "index_clash (free_ticket s env eid aid ai) =
      (\<lambda>u. ticketNumber u = ticketNumber_of env \<or> qrCodeUrl u = qrDataUrl env \<or>
           qrCodeData u = randomHex env)"
    by (rule ext) (simp add: index_clash_def free_ticket_def)
  then show ?thesis by (simp add: keys_new_def)
qed

section \<open>Lemmas about numbers\<close>

lemma bitlen_powi:
  assumes "0 < p"
  shows "(2::rat) powi (bitlen p - 1) \<le> of_int p" and "of_int p < (2::rat) powi bitlen p"
proof -
  from bitlen_bounds [OF assms]
  have lo: "2 ^ nat (bitlen p - 1) \<le> p" and hi: "p < 2 ^ nat (bitlen p)" by simp_all
  have pos: "0 \<le> bitlen p - 1"
    using assms by (simp add: bitlen_alt_def)
  have "(2::rat) powi (bitlen p - 1) = 2 ^ nat (bitlen p - 1)"
    using pos by (rule power_int_nonneg_exp)
  also have "\<dots> = of_int (2 ^ nat (bitlen p - 1))" by simp
  also have "\<dots> \<le> of_int p" using lo by (simp only: of_int_le_iff)
  finally show "(2::rat) powi (bitlen p - 1) \<le> of_int p" .
  have "(of_int p :: rat) < of_int (2 ^ nat (bitlen p))" using hi by (simp only: of_int_less_iff)
  also have "\<dots> = 2 ^ nat (bitlen p)" by simp
  also have "\<dots> = (2::rat) powi bitlen p"
    by (rule power_int_nonneg_exp [symmetric]) (rule bitlen_nonneg)
  finally show "of_int p < (2::rat) powi bitlen p" .
qed

lemma binade_bounds:
  assumes "0 < x"
  shows "2 powi binade x \<le> x \<and> x < 2 powi (binade x + 1)"
proof -
  obtain p q where pq: "quotient_of x = (p, q)" by force
  have q: "0 < q" by (rule quotient_of_denom_pos [OF pq])
  have x: "x = of_int p / of_int q" by (rule quotient_of_div [OF pq])
  have p: "0 < p" using assms q by (simp add: x zero_less_divide_iff)
  define k where "k = bitlen p - bitlen q"
  note P = bitlen_powi [OF p] and Q = bitlen_powi [OF q]
  have qr: "(0::rat) < of_int q" and pr: "(0::rat) < of_int p" using p q by simp_all
  have "(2::rat) powi (k - 1) = 2 powi (bitlen p - 1) / 2 powi bitlen q"
    unfolding k_def by (simp add: power_int_diff)
  also have "\<dots> < of_int p / of_int q"
    by (rule frac_less2) (use P Q qr in simp_all)
  finally have lo: "2 powi (k - 1) < x" unfolding x .
  have "x < 2 powi bitlen p / 2 powi (bitlen q - 1)"
    unfolding x by (rule frac_less) (use P Q pr in simp_all)
  also have "\<dots> = 2 powi (bitlen p - (bitlen q - 1))"
    by (rule power_int_diff [symmetric]) simp
  also have "bitlen p - (bitlen q - 1) = k + 1" by (simp add: k_def)
  finally have hi: "x < 2 powi (k + 1)" .
  have b: "binade x = (if 2 powi k \<le> x then k else k - 1)"
    by (simp add: binade_def pq k_def Let_def)
  show ?thesis
  proof (cases "2 powi k \<le> x")
    case True
    with hi b show ?thesis by simp
  next
    case False
    with lo b show ?thesis by simp
  qed
qed

lemma binade_unique:
  assumes "0 < x" "2 powi e \<le> x" "x < 2 powi (e + 1)"
  shows "binade x = e"
proof (rule ccontr)
  assume ne: "binade x \<noteq> e"
  note b = binade_bounds [OF assms(1)]
  show False
  proof (cases "binade x < e")
    case True
    then have "(2::rat) powi (binade x + 1) \<le> 2 powi e"
      by (intro power_int_increasing) simp_all
    with b assms(2) show False by linarith
  next
    case False
    with ne have "(2::rat) powi (e + 1) \<le> 2 powi binade x"
      by (intro power_int_increasing) simp_all
    with b assms(3) show False by linarith
  qed
qed

lemma round_even_floor: "\<lfloor>y\<rfloor> \<le> round_even y \<and> round_even y \<le> \<lfloor>y\<rfloor> + 1"
  by (simp add: round_even_def Let_def)

lemma round_even_close: "\<bar>of_int (round_even y) - y\<bar> \<le> 1 / 2"
proof -
  have "of_int \<lfloor>y\<rfloor> \<le> y" "y < of_int \<lfloor>y\<rfloor> + 1" by linarith+
  then show ?thesis by (auto simp: round_even_def Let_def)
qed

lemma round_even_unique:
  assumes "\<bar>y - of_int k\<bar> < 1 / 2"
  shows "round_even y = k"
proof (cases "of_int k \<le> y")
  case True
  with assms have "\<lfloor>y\<rfloor> = k" by (intro floor_unique) linarith+
  with assms True show ?thesis by (simp add: round_even_def Let_def)
next
  case False
  with assms have "\<lfloor>y\<rfloor> = k - 1" by (intro floor_unique) (simp, linarith)+
  with assms False show ?thesis by (simp add: round_even_def Let_def)
qed

lemma round_even_of_int: "round_even (of_int k) = k"
  by (rule round_even_unique) simp

lemma round_even_mono:
  assumes "x \<le> y"
  shows "round_even x \<le> round_even y"
proof (cases "\<lfloor>x\<rfloor> = \<lfloor>y\<rfloor>")
  case True
  with assms show ?thesis by (auto simp: round_even_def Let_def)
next
  case False
  with assms have "\<lfloor>x\<rfloor> + 1 \<le> \<lfloor>y\<rfloor>" using floor_mono [OF assms] by linarith
  with round_even_floor [of x] round_even_floor [of y] show ?thesis by linarith
qed

lemma double_pos:
  "0 < x \<Longrightarrow>
   double x = of_int (round_even (x / 2 powi (binade x - 52))) * 2 powi (binade x - 52)"
  by (simp add: double_def)

lemma double_eval:
  assumes "0 < x" "2 powi e \<le> x" "x < 2 powi (e + 1)"
  shows "double x = of_int (round_even (x / 2 powi (e - 52))) * 2 powi (e - 52)"
  unfolding double_pos [OF assms(1)] binade_unique [OF assms] ..

lemma double_exact:
  assumes "0 < x" "2 powi e \<le> x" "x < 2 powi (e + 1)" "x / 2 powi (e - 52) = of_int m"
  shows "double x = x"
proof -
  have "double x = of_int m * 2 powi (e - 52)"
    unfolding double_eval [OF assms(1-3)] assms(4) round_even_of_int ..
  also have "\<dots> = x" unfolding assms(4) [symmetric] by simp
  finally show ?thesis .
qed

lemma double_error:
  assumes "0 < x"
  shows "\<bar>double x - x\<bar> \<le> x / 2 ^ 53"
proof -
  define u :: rat where "u = 2 powi (binade x - 52)"
  have u: "0 < u" by (simp add: u_def)
  have "double x - x = (of_int (round_even (x / u)) - x / u) * u"
    unfolding double_pos [OF assms] u_def [symmetric]
    using u by (simp add: left_diff_distrib)
  then have "\<bar>double x - x\<bar> = \<bar>of_int (round_even (x / u)) - x / u\<bar> * u"
    using u by (simp add: abs_mult)
  also have "\<dots> \<le> 1 / 2 * u"
    using u by (intro mult_right_mono round_even_close) simp
  also have "\<dots> = 2 powi binade x / 2 ^ 53"
    unfolding u_def by (simp add: power_int_diff)
  also have "\<dots> \<le> x / 2 ^ 53"
    using binade_bounds [OF assms] by (intro divide_right_mono) simp_all
  finally show ?thesis .
qed

lemma double_ge:
  assumes "0 < x"
  shows "2 powi binade x \<le> double x"
proof -
  define u :: rat where "u = 2 powi (binade x - 52)"
  have u: "0 < u" by (simp add: u_def)
  have "2 powi binade x = u * 2 ^ 52" unfolding u_def by (simp add: power_int_diff)
  with binade_bounds [OF assms] have "u * 2 ^ 52 \<le> x" by simp
  then have "of_int (2 ^ 52) \<le> x / u" using u by (simp add: pos_le_divide_eq mult.commute)
  then have "round_even (of_int (2 ^ 52)) \<le> round_even (x / u)" by (rule round_even_mono)
  then have "2 ^ 52 \<le> round_even (x / u)" by (simp only: round_even_of_int)
  then have "(of_int (2 ^ 52) :: rat) \<le> of_int (round_even (x / u))" by (simp only: of_int_le_iff)
  then have "of_int (2 ^ 52) * u \<le> of_int (round_even (x / u)) * u"
    using u by (intro mult_right_mono) simp_all
  then show ?thesis
    unfolding double_pos [OF assms] u_def [symmetric] \<open>2 powi binade x = u * 2 ^ 52\<close>
    by (simp add: mult.commute)
qed

lemma double_le:
  assumes "0 < x"
  shows "double x \<le> 2 powi (binade x + 1)"
proof -
  define u :: rat where "u = 2 powi (binade x - 52)"
  have u: "0 < u" by (simp add: u_def)
  have top: "2 powi (binade x + 1) = u * 2 ^ 53"
    unfolding u_def by (simp add: power_int_diff power_int_add)
  with binade_bounds [OF assms] have "x \<le> u * 2 ^ 53" by simp
  then have "x / u \<le> of_int (2 ^ 53)" using u by (simp add: pos_divide_le_eq mult.commute)
  then have "round_even (x / u) \<le> round_even (of_int (2 ^ 53))" by (rule round_even_mono)
  then have "round_even (x / u) \<le> 2 ^ 53" by (simp only: round_even_of_int)
  then have "(of_int (round_even (x / u)) :: rat) \<le> of_int (2 ^ 53)" by (simp only: of_int_le_iff)
  then have "of_int (round_even (x / u)) * u \<le> of_int (2 ^ 53) * u"
    using u by (intro mult_right_mono) simp_all
  then show ?thesis
    unfolding double_pos [OF assms] u_def [symmetric] top
    by (simp add: mult.commute)
qed

lemma double_nonneg:
  assumes "0 \<le> x"
  shows "0 \<le> double x"
proof (cases "x = 0")
  case True
  then show ?thesis by (simp add: double_def)
next
  case False
  with assms have x: "0 < x" by simp
  have "(0::rat) \<le> 2 powi binade x" by simp
  also have "\<dots> \<le> double x" by (rule double_ge [OF x])
  finally show ?thesis .
qed

lemma double_mono:
  assumes "0 < x" "x \<le> y"
  shows "double x \<le> double y"
proof -
  have y: "0 < y" using assms by simp
  note bx = binade_bounds [OF assms(1)] and bY = binade_bounds [OF y]
  have "binade x \<le> binade y"
  proof (rule ccontr)
    assume "\<not> binade x \<le> binade y"
    then have "(2::rat) powi (binade y + 1) \<le> 2 powi binade x"
      by (intro power_int_increasing) simp_all
    with bx bY assms(2) show False by linarith
  qed
  then consider "binade x = binade y" | "binade x + 1 \<le> binade y" by linarith
  then show ?thesis
  proof cases
    case 1
    define u :: rat where "u = 2 powi (binade y - 52)"
    have u: "0 < u" by (simp add: u_def)
    have "x / u \<le> y / u" using assms(2) u by (simp add: divide_right_mono)
    then have "round_even (x / u) \<le> round_even (y / u)" by (rule round_even_mono)
    then have "(of_int (round_even (x / u)) :: rat) \<le> of_int (round_even (y / u))"
      by (simp only: of_int_le_iff)
    then have "of_int (round_even (x / u)) * u \<le> of_int (round_even (y / u)) * u"
      using u by (intro mult_right_mono) simp_all
    then show ?thesis
      unfolding double_pos [OF assms(1)] double_pos [OF y] 1 u_def [symmetric] .
  next
    case 2
    have "double x \<le> 2 powi (binade x + 1)" by (rule double_le [OF assms(1)])
    also have "\<dots> \<le> 2 powi binade y" using 2 by (intro power_int_increasing) simp_all
    also have "\<dots> \<le> double y" by (rule double_ge [OF y])
    finally show ?thesis .
  qed
qed

lemma double_values: "double 0 = 0" "double 1 = 1" "double 100 = 100" "double 50 = 50"
    "double (1 / 2) = 1 / 2"
proof -
  show "double 0 = 0" by (simp add: double_def)
  show "double 1 = 1" by (rule double_exact [where e = 0 and m = "2 ^ 52"]) simp_all
  show "double 100 = 100" by (rule double_exact [where e = 6 and m = "100 * 2 ^ 46"]) simp_all
  show "double 50 = 50" by (rule double_exact [where e = 5 and m = "50 * 2 ^ 47"]) simp_all
  show "double (1 / 2) = 1 / 2" by (rule double_exact [where e = "- 1" and m = "2 ^ 52"]) simp_all
qed

lemma double_error0:
  assumes "0 \<le> x"
  shows "\<bar>double x - x\<bar> \<le> x / 2 ^ 53"
proof (cases "x = 0")
  case True
  then show ?thesis by (simp add: double_values)
next
  case False
  with assms have "0 < x" by simp
  then show ?thesis by (rule double_error)
qed

lemma double_mono0:
  assumes "0 \<le> x" "x \<le> y"
  shows "double x \<le> double y"
proof (cases "x = 0")
  case True
  with assms double_nonneg [of y] show ?thesis by (simp add: double_values)
next
  case False
  with assms show ?thesis by (intro double_mono) simp_all
qed

lemma toFixed2_nonneg_eq: "0 \<le> x \<Longrightarrow> toFixed2 x = of_int \<lfloor>x * 100 + 1 / 2\<rfloor> / 100"
  by (simp add: toFixed2_def)

lemma toFixed2_hundredths:
  assumes "0 \<le> k"
  shows "toFixed2 (of_int k / 100) = of_int k / 100"
proof -
  have "\<lfloor>(of_int k :: rat) + 1 / 2\<rfloor> = k"
    by (rule floor_unique) simp_all
  moreover have "(0 :: rat) \<le> of_int k / 100" using assms by simp
  ultimately show ?thesis by (simp add: toFixed2_nonneg_eq)
qed

lemma toFixed2_close:
  assumes "0 \<le> x"
  shows "\<bar>toFixed2 x - x\<bar> \<le> 1 / 200"
proof -
  define k :: rat where "k = of_int \<lfloor>x * 100 + 1 / 2\<rfloor>"
  have lo: "k \<le> x * 100 + 1 / 2" unfolding k_def by (rule of_int_floor_le)
  have "x * 100 + 1 / 2 < of_int (\<lfloor>x * 100 + 1 / 2\<rfloor> + 1)"
    by (rule floor_correct [THEN conjunct2])
  then have hi: "x * 100 + 1 / 2 < k + 1" unfolding k_def by simp
  have eq: "toFixed2 x = k / 100"
    unfolding k_def by (rule toFixed2_nonneg_eq [OF assms])
  have "k / 100 - x \<le> 1 / 200" "x - k / 100 \<le> 1 / 200"
    using lo hi by linarith+
  then show ?thesis unfolding eq by (intro abs_leI) linarith+
qed

lemma toFixed2_mono: "0 \<le> x \<Longrightarrow> x \<le> y \<Longrightarrow> toFixed2 x \<le> toFixed2 y"
  by (simp add: toFixed2_def floor_mono divide_right_mono)

lemma toFixed2_values: "toFixed2 0 = 0" "toFixed2 50 = 50" "toFixed2 100 = 100"
  using toFixed2_hundredths [of 0] toFixed2_hundredths [of 5000] toFixed2_hundredths [of 10000]
  by simp_all

lemma rate_bounds:
  assumes "0 \<le> sc" "sc \<le> tot" "0 < tot"
  shows "0 \<le> double (toFixed2 (double (double (of_int sc / of_int tot) * 100)))"
    and "double (toFixed2 (double (double (of_int sc / of_int tot) * 100))) \<le> 100"
    and "\<bar>double (toFixed2 (double (double (of_int sc / of_int tot) * 100))) -
          of_int sc / of_int tot * 100\<bar> \<le> 1 / 200 + 1 / 2 ^ 44"
proof -
  define p :: rat where "p = of_int sc / of_int tot"
  define q where "q = double p"
  define y where "y = q * 100"
  define x where "x = double y"
  define h where "h = toFixed2 x"
  define r where "r = double h"
  define eps :: rat where "eps = 100 / 2 ^ 53"
  have bound: "0 \<le> a \<Longrightarrow> a \<le> 100 \<Longrightarrow> \<bar>double a - a\<bar> \<le> eps" for a
  proof -
    assume a: "0 \<le> a" "a \<le> 100"
    have "\<bar>double a - a\<bar> \<le> a / 2 ^ 53" using a(1) by (rule double_error0)
    also have "\<dots> \<le> 100 / 2 ^ 53" using a(2) by (intro divide_right_mono) simp_all
    finally show ?thesis unfolding eps_def .
  qed
  have p0: "0 \<le> p" using assms by (simp add: p_def)
  have p1: "p \<le> 1" using assms by (simp add: p_def divide_le_eq_1)
  have q0: "0 \<le> q" unfolding q_def using p0 by (rule double_nonneg)
  have q1: "q \<le> 1" using double_mono0 [OF p0 p1] by (simp add: q_def double_values)
  have "\<bar>q - p\<bar> \<le> p / 2 ^ 53" unfolding q_def using p0 by (rule double_error0)
  also have "\<dots> \<le> 1 / 2 ^ 53" using p1 by (intro divide_right_mono) simp_all
  finally have qe: "\<bar>q - p\<bar> \<le> 1 / 2 ^ 53" .
  have y0: "0 \<le> y" and y1: "y \<le> 100" using q0 q1 by (simp_all add: y_def)
  have x0: "0 \<le> x" unfolding x_def using y0 by (rule double_nonneg)
  have x1: "x \<le> 100" using double_mono0 [OF y0 y1] by (simp add: x_def double_values)
  have xe: "\<bar>x - y\<bar> \<le> eps" unfolding x_def using y0 y1 by (rule bound)
  have h0: "0 \<le> h" using toFixed2_mono [OF order_refl x0] by (simp add: h_def toFixed2_values)
  have h1: "h \<le> 100" using toFixed2_mono [OF x0 x1] by (simp add: h_def toFixed2_values)
  have he: "\<bar>h - x\<bar> \<le> 1 / 200" unfolding h_def using x0 by (rule toFixed2_close)
  have r0: "0 \<le> r" unfolding r_def using h0 by (rule double_nonneg)
  have r1: "r \<le> 100" using double_mono0 [OF h0 h1] by (simp add: r_def double_values)
  have re: "\<bar>r - h\<bar> \<le> eps" unfolding r_def using h0 h1 by (rule bound)
  have "y - p * 100 = (q - p) * 100" by (simp add: y_def left_diff_distrib)
  then have "\<bar>y - p * 100\<bar> = \<bar>q - p\<bar> * 100" by (simp only: abs_mult abs_numeral)
  also have "\<dots> \<le> 1 / 2 ^ 53 * 100" using qe by (rule mult_right_mono) simp
  also have "\<dots> = eps" by (simp add: eps_def)
  finally have ye: "\<bar>y - p * 100\<bar> \<le> eps" .
  have small: "3 * eps \<le> 1 / 2 ^ 44" by (simp add: eps_def)
  have "\<bar>r - p * 100\<bar> \<le> \<bar>r - h\<bar> + \<bar>h - x\<bar> + \<bar>x - y\<bar> + \<bar>y - p * 100\<bar>" by linarith
  also have "\<dots> \<le> 1 / 200 + 3 * eps" using re he xe ye by linarith
  also have "\<dots> \<le> 1 / 200 + 1 / 2 ^ 44" using small by (rule add_left_mono)
  finally have e: "\<bar>r - p * 100\<bar> \<le> 1 / 200 + 1 / 2 ^ 44" .
  from r0 show "0 \<le> double (toFixed2 (double (double (of_int sc / of_int tot) * 100)))"
    by (simp only: r_def h_def x_def y_def q_def p_def)
  from r1 show "double (toFixed2 (double (double (of_int sc / of_int tot) * 100))) \<le> 100"
    by (simp only: r_def h_def x_def y_def q_def p_def)
  from e show "\<bar>double (toFixed2 (double (double (of_int sc / of_int tot) * 100))) -
          of_int sc / of_int tot * 100\<bar> \<le> 1 / 200 + 1 / 2 ^ 44"
    by (simp only: r_def h_def x_def y_def q_def p_def)
qed

lemma double_minus: "double (- x) = - double x"
  by (simp add: double_def)

lemma double_nonpos:
  assumes "x \<le> 0"
  shows "double x \<le> 0"
proof -
  from assms have "0 \<le> double (- x)" by (intro double_nonneg) simp
  then show ?thesis by (simp add: double_minus)
qed

lemma double_24: "double 24 = 24" "double (24 - 1 / 2 ^ 48) = 24 - 1 / 2 ^ 48"
proof -
  show "double 24 = 24" by (rule double_exact [where e = 4 and m = "24 * 2 ^ 48"]) simp_all
  show "double (24 - 1 / 2 ^ 48) = 24 - 1 / 2 ^ 48"
    by (rule double_exact [where e = 4 and m = "24 * 2 ^ 48 - 1"]) simp_all
qed

lemma hours_lt_24_iff: "hoursUntilEvent start now < 24 \<longleftrightarrow> start - now < 86400000"
proof -
  define d where "d = start - now"
  define x :: rat where "x = of_int d / (1000 * 60 * 60)"
  have x: "x = of_int d / 3600000" by (simp add: x_def)
  have "double x < 24 \<longleftrightarrow> d < 86400000"
  proof (cases "d < 86400000")
    case True
    have "double x < 24"
    proof (cases "d \<le> 0")
      case True
      then have "x \<le> 0" by (simp add: x divide_le_0_iff)
      then have "double x \<le> 0" by (rule double_nonpos)
      then show ?thesis by simp
    next
      case False
      then have pos: "0 < x" by (simp add: x)
      from True have "d \<le> 86399999" by simp
      then have "(of_int d :: rat) \<le> of_int 86399999" by (simp only: of_int_le_iff)
      then have "x \<le> 86399999 / 3600000" by (simp add: x divide_right_mono)
      also have "\<dots> \<le> 24 - 1 / 2 ^ 48" by simp
      finally have "x \<le> 24 - 1 / 2 ^ 48" .
      with pos have "double x \<le> double (24 - 1 / 2 ^ 48)" by (rule double_mono)
      also have "\<dots> = 24 - 1 / 2 ^ 48" by (rule double_24(2))
      also have "\<dots> < 24" by simp
      finally show ?thesis .
    qed
    with True show ?thesis by simp
  next
    case False
    then have "86400000 \<le> d" by simp
    then have "(of_int 86400000 :: rat) \<le> of_int d" by (simp only: of_int_le_iff)
    then have "24 \<le> x" by (simp add: x pos_le_divide_eq)
    then have "double 24 \<le> double x" by (intro double_mono) simp_all
    with False show ?thesis by (simp add: double_24)
  qed
  then show ?thesis unfolding d_def x_def hoursUntilEvent_def .
qed

section \<open>The branches of the handlers\<close>

lemma cancelTicket_NotFound:
  "find (\<lambda>t. tid t = ticketId \<and> attendeeId t = aid \<and> status t = Active) (tickets s) = None \<Longrightarrow>
   cancelTicket s ck ticketId aid r = (TicketNotFound, s)"
  unfolding cancelTicket_def by (simp only: option.case)

lemma cancelTicket_NoEvent:
  "find (\<lambda>t. tid t = ticketId \<and> attendeeId t = aid \<and> status t = Active) (tickets s) = Some t \<Longrightarrow>
   events s (eventId t) = None \<Longrightarrow>
   cancelTicket s ck ticketId aid r = (ServerErrorCancelling, s)"
  unfolding cancelTicket_def by (simp only: option.case)

lemma cancelTicket_TooLate:
  "find (\<lambda>t. tid t = ticketId \<and> attendeeId t = aid \<and> status t = Active) (tickets s) = Some t \<Longrightarrow>
   events s (eventId t) = Some e \<Longrightarrow> hoursUntilEvent (startDateTime e) (clockHours ck) < 24 \<Longrightarrow>
   cancelTicket s ck ticketId aid r = (TooLateToCancel, s)"
  unfolding cancelTicket_def by (simp only: option.case if_True)

lemma cancelTicket_Done:
  assumes f: "find (\<lambda>t. tid t = ticketId \<and> attendeeId t = aid \<and> status t = Active) (tickets s) = Some t"
    and ev: "events s (eventId t) = Some e"
    and far: "\<not> hoursUntilEvent (startDateTime e) (clockHours ck) < 24"
  shows "cancelTicket s ck ticketId aid r =
     (TicketCancelled (pricePaid t),
      (if pricePaid t > 0
       then (inc_ticketsSold
               (replace_ticket s (t\<lparr>status := Cancelled, updatedAt := clockUpdated ck\<rparr>))
               (eventId t) (- 1))
              \<lparr>payments := mark_refunded (payments s) (paymentId t)
                   (refund_of (t\<lparr>status := Cancelled\<rparr>) (clockRefunded ck) r)\<rparr>
       else inc_ticketsSold
              (replace_ticket s (t\<lparr>status := Cancelled, updatedAt := clockUpdated ck\<rparr>))
              (eventId t) (- 1)))"
proof -
  have "status t = Active" using find_SomeD [OF f] by simp
  then have "t\<lparr>status := Cancelled\<rparr> \<noteq> t"
    by (metis ticket_status.distinct(1) ticket.select_convs(10) ticket.surjective ticket.update_convs(10))
  then have sv: "save_ticket s (clockUpdated ck) t (t\<lparr>status := Cancelled\<rparr>) =
      replace_ticket s (t\<lparr>status := Cancelled, updatedAt := clockUpdated ck\<rparr>)"
    by (simp add: save_ticket_def)
  show ?thesis
    unfolding cancelTicket_def
    by (simp only: f ev far option.case if_False Let_def schema_paths_def fst_conv sv)
       (simp add: inc_ticketsSold_def replace_ticket_def ev)
qed

lemma bookTicket_NotFound:
  "events s eid = None \<Longrightarrow> bookTicket s env eid aid ai = (EventNotFound, s)"
  unfolding bookTicket_def by (simp only: option.case)

lemma bookTicket_Some:
  "events s eid = Some e \<Longrightarrow>
   bookTicket s env eid aid ai =
     (if eventStatus e \<noteq> Published then (NotAvailableForBooking, s)
      else if startDateTime e \<le> clockCheck env then (AlreadyStarted, s)
      else if ticketsSold e \<ge> capacity e then (SoldOut, s)
      else if find (\<lambda>t. eventId t = eid \<and> attendeeId t = aid \<and> status t \<noteq> Cancelled)
                (tickets s) \<noteq> None
        then (AlreadyHaveTicket, s)
      else if isFree (pricing e) then
        (if list_ex (index_clash (free_ticket s env eid aid ai)) (tickets s)
         then (ServerErrorBooking, s)
         else (FreeTicketBooked (Some (free_ticket s env eid aid ai)),
               s\<lparr>tickets := tickets s @ [free_ticket s env eid aid ai],
                  events := (events s)(eid \<mapsto> e\<lparr>ticketsSold := ticketsSold e + 1\<rparr>)\<rparr>))
      else (ProceedToPayment (price (pricing e)) (currency (pricing e)), s))"
proof -
  have fresh: "tid (free_ticket s env eid aid ai) \<notin> tid ` set (tickets s)"
    using fresh_tid_new [of "tickets s"] by (simp add: free_ticket_def)
  assume "events s eid = Some e"
  then show ?thesis
    unfolding bookTicket_def
    by (simp only: option.case Let_def insert_ticket_def)
       (simp add: inc_ticketsSold_def find_fresh [OF fresh])
qed

section \<open>The counter and the active tickets\<close>

lemma bookTicket_consistent:
  assumes "ledger_consistent s"
  shows "ledger_consistent (snd (bookTicket s env eid aid ai))"
proof (cases "events s eid")
  case None
  with assms show ?thesis by (simp add: bookTicket_NotFound)
next
  case (Some e)
  let ?t = "free_ticket s env eid aid ai"
  let ?s' = "s\<lparr>tickets := tickets s @ [?t],
                events := (events s)(eid \<mapsto> e\<lparr>ticketsSold := ticketsSold e + 1\<rparr>)\<rparr>"
  have "snd (bookTicket s env eid aid ai) = s \<or>
        snd (bookTicket s env eid aid ai) = ?s' \<and> ticketsSold e < capacity e"
    unfolding bookTicket_Some [OF Some] by simp
  then consider
      (same) "snd (bookTicket s env eid aid ai) = s"
    | (booked) "snd (bookTicket s env eid aid ai) = ?s'" "ticketsSold e < capacity e"
    by blast
  then show ?thesis
  proof cases
    case same
    with assms show ?thesis by simp
  next
    case booked
    have t_props: "tid ?t = fresh_tid (tickets s)" "eventId ?t = eid" "status ?t = Active"
      by (simp_all add: free_ticket_def)
    have d: "distinct (map tid (tickets s @ [?t]))"
      using assms fresh_tid_new [of "tickets s"] t_props(1) by (simp add: ledger_consistent_def)
    have "active_count (tickets s @ [?t]) i \<le> ticketsSold e' \<and> ticketsSold e' \<le> capacity e'"
      if ev: "((events s)(eid \<mapsto> e\<lparr>ticketsSold := ticketsSold e + 1\<rparr>)) i = Some e'" for i e'
    proof (cases "i = eid")
      case True
      with ev have e': "e' = e\<lparr>ticketsSold := ticketsSold e + 1\<rparr>" by simp
      have "active_count (tickets s) eid \<le> ticketsSold e"
        using ledger_consistentD [OF assms Some] by simp
      with booked(2) show ?thesis by (simp add: e' True active_count_append t_props)
    next
      case False
      with ev have "events s i = Some e'" by simp
      with assms have "active_count (tickets s) i \<le> ticketsSold e' \<and> ticketsSold e' \<le> capacity e'"
        by (rule ledger_consistentD)
      with False show ?thesis by (simp add: active_count_append t_props)
    qed
    moreover have "tickets ?s' = tickets s @ [?t]"
      and "events ?s' = (events s)(eid \<mapsto> e\<lparr>ticketsSold := ticketsSold e + 1\<rparr>)"
      by simp_all
    ultimately show ?thesis
      using d unfolding booked(1) ledger_consistent_def by (simp only:) blast
  qed
qed

lemma cancelTicket_consistent:
  assumes "ledger_consistent s"
  shows "ledger_consistent (snd (cancelTicket s ck ticketId aid r))"
proof (cases "find (\<lambda>t. tid t = ticketId \<and> attendeeId t = aid \<and> status t = Active) (tickets s)")
  case None
  show ?thesis using assms by (simp add: cancelTicket_NotFound [OF None])
next
  case (Some t)
  have t: "t \<in> set (tickets s)" "status t = Active"
    using find_SomeD [OF Some] by simp_all
  show ?thesis
  proof (cases "events s (eventId t)")
    case None
    show ?thesis using assms by (simp add: cancelTicket_NoEvent [OF Some None])
  next
    case ev: (Some e)
    show ?thesis
    proof (cases "hoursUntilEvent (startDateTime e) (clockHours ck) < 24")
      case True
      show ?thesis using assms by (simp add: cancelTicket_TooLate [OF Some ev True])
    next
      case False
      let ?t' = "t\<lparr>status := Cancelled, updatedAt := clockUpdated ck\<rparr>"
      let ?ts = "map (\<lambda>u. if tid u = tid t then ?t' else u) (tickets s)"
      let ?es = "(events s)(eventId t \<mapsto> e\<lparr>ticketsSold := ticketsSold e - 1\<rparr>)"
      have post: "tickets (snd (cancelTicket s ck ticketId aid r)) = ?ts"
                 "events (snd (cancelTicket s ck ticketId aid r)) = ?es"
        using ev by (simp_all add: cancelTicket_Done [OF Some ev False] replace_ticket_def inc_ticketsSold_def)
      from assms have d: "distinct (map tid (tickets s))" by (simp add: ledger_consistent_def)
      have ids: "map tid ?ts = map tid (tickets s)"
        by (rule replace_keeps_key [OF d t(1)]) simp
      have d': "distinct (map tid ?ts)" unfolding ids by (rule d)
      have nact: "status ?t' \<noteq> Active" by simp
      have "active_count ?ts i \<le> ticketsSold e' \<and> ticketsSold e' \<le> capacity e'"
        if ev': "?es i = Some e'" for i e'
      proof (cases "i = eventId t")
        case True
        with ev' have e': "e' = e\<lparr>ticketsSold := ticketsSold e - 1\<rparr>" by simp
        from assms ev have "active_count (tickets s) (eventId t) \<le> ticketsSold e \<and> ticketsSold e \<le> capacity e"
          by (rule ledger_consistentD)
        then show ?thesis
          by (simp add: e' True active_count_cancel [OF d t nact])
      next
        case False
        with ev' have "events s i = Some e'" by simp
        with assms have "active_count (tickets s) i \<le> ticketsSold e' \<and> ticketsSold e' \<le> capacity e'"
          by (rule ledger_consistentD)
        with False show ?thesis by (simp add: active_count_cancel [OF d t nact])
      qed
      with d' show ?thesis
        unfolding ledger_consistent_def post by blast
    qed
  qed
qed

lemma active_count_nonneg: "0 \<le> active_count ts i"
  by (simp add: active_count_def)

lemma new_ledger_consistent:
  assumes "tickets s = []"
    and "\<And>i e. events s i = Some e \<Longrightarrow> ticketsSold e = 0 \<and> 1 \<le> capacity e"
  shows "ledger_consistent s"
  unfolding ledger_consistent_def active_count_def using assms by fastforce

lemmas demo_defs =
  demo_store_def demo_event_def demo_users_def demo_env_def demo_clock_def no_info_def
  demo_ops_def

lemmas ledger_defs =
  run_ops_def bookTicket_def insert_ticket_def inc_ticketsSold_def
  save_ticket_def replace_ticket_def free_ticket_def fresh_tid_def index_clash_def
  ticketNumber_of_def show_int_def dec.simps Let_def default_verification_def
  default_checkIn_def cancellation_of_def reason_or_def schema_paths_def

section \<open>Cancellation\<close>

lemma cancelTicket_effect:
  assumes d: "distinct (map tid (tickets s))"
    and t: "t \<in> set (tickets s)" "tid t = ticketId" "attendeeId t = aid" "status t = Active"
    and ev: "events s (eventId t) = Some e"
    and far: "24 * 60 * 60 * 1000 \<le> startDateTime e - clockHours ck"
  shows "cancelTicket s ck ticketId aid r =
           (TicketCancelled (pricePaid t),
            s\<lparr>tickets :=
                 map (\<lambda>u. if u = t then t\<lparr>status := Cancelled, updatedAt := clockUpdated ck\<rparr>
                          else u) (tickets s),
               events := (events s)(eventId t \<mapsto> e\<lparr>ticketsSold := ticketsSold e - 1\<rparr>),
               payments :=
                 (if pricePaid t > 0
                  then mark_refunded (payments s) (paymentId t)
                         (refund_of (t\<lparr>status := Cancelled\<rparr>) (clockRefunded ck) r)
                  else payments s)\<rparr>)"
proof -
  let ?P = "\<lambda>t. tid t = ticketId \<and> attendeeId t = aid \<and> status t = Active"
  let ?t' = "t\<lparr>status := Cancelled, updatedAt := clockUpdated ck\<rparr>"
  have f: "find ?P (tickets s) = Some t"
    using d t by (intro find_tid_distinct) simp_all
  have late: "\<not> hoursUntilEvent (startDateTime e) (clockHours ck) < 24"
    using far by (simp add: hours_lt_24_iff)
  have sv: "map (\<lambda>u. if tid u = tid ?t' then ?t' else u) (tickets s) =
            map (\<lambda>u. if u = t then ?t' else u) (tickets s)"
    using d t(1) by (rule replace_distinct) simp
  show ?thesis
    using ev sv unfolding cancelTicket_Done [OF f ev late]
    by (simp add: replace_ticket_def inc_ticketsSold_def)
qed

lemma cancelTicket_success_only:
  assumes x: "fst (cancelTicket s ck ticketId aid r) = TicketCancelled x"
  shows "\<exists>t e. t \<in> set (tickets s) \<and> tid t = ticketId \<and> attendeeId t = aid \<and>
                status t = Active \<and> events s (eventId t) = Some e \<and>
                24 * 60 * 60 * 1000 \<le> startDateTime e - clockHours ck"
proof (cases "find (\<lambda>t. tid t = ticketId \<and> attendeeId t = aid \<and> status t = Active) (tickets s)")
  case None
  show ?thesis using x by (simp add: cancelTicket_NotFound [OF None])
next
  case (Some t)
  show ?thesis
  proof (cases "events s (eventId t)")
    case None
    show ?thesis using x by (simp add: cancelTicket_NoEvent [OF Some None])
  next
    case ev: (Some e)
    show ?thesis
    proof (cases "hoursUntilEvent (startDateTime e) (clockHours ck) < 24")
      case True
      show ?thesis using x by (simp add: cancelTicket_TooLate [OF Some ev True])
    next
      case False
      then have "24 * 60 * 60 * 1000 \<le> startDateTime e - clockHours ck"
        by (simp add: hours_lt_24_iff)
      with find_SomeD [OF Some] ev show ?thesis by blast
    qed
  qed
qed

text \<open>
  What holds of every cancellation in a store whose tickets have distinct ids: the
  request succeeds exactly when the ticket exists, belongs to the requester and is
  active, its event exists and starts at least 24 hours (86400000 ms) after the request;
  on success the answer carries \<^verbatim>\<open>pricePaid\<close> as the refund amount, the stored ticket
  (and no other) becomes cancelled, with \<^verbatim>\<open>updatedAt\<close> the time of the save, and the
  event's \<^verbatim>\<open>ticketsSold\<close> is one less.
\<close>

lemma cancelTicket_succeeds_iff:
  assumes d: "distinct (map tid (tickets s))"
  shows "(\<exists>x. fst (cancelTicket s ck ticketId aid r) = TicketCancelled x) \<longleftrightarrow>
         (\<exists>t e. t \<in> set (tickets s) \<and> tid t = ticketId \<and> attendeeId t = aid \<and>
                status t = Active \<and> events s (eventId t) = Some e \<and>
                24 * 60 * 60 * 1000 \<le> startDateTime e - clockHours ck)"
proof
  assume "\<exists>x. fst (cancelTicket s ck ticketId aid r) = TicketCancelled x"
  then show "\<exists>t e. t \<in> set (tickets s) \<and> tid t = ticketId \<and> attendeeId t = aid \<and>
                 status t = Active \<and> events s (eventId t) = Some e \<and>
                 24 * 60 * 60 * 1000 \<le> startDateTime e - clockHours ck"
    by (elim exE) (rule cancelTicket_success_only)
next
  assume "\<exists>t e. t \<in> set (tickets s) \<and> tid t = ticketId \<and> attendeeId t = aid \<and>
                 status t = Active \<and> events s (eventId t) = Some e \<and>
                 24 * 60 * 60 * 1000 \<le> startDateTime e - clockHours ck"
  then obtain t e where "t \<in> set (tickets s)" "tid t = ticketId" "attendeeId t = aid"
    "status t = Active" "events s (eventId t) = Some e"
    "24 * 60 * 60 * 1000 \<le> startDateTime e - clockHours ck" by blast
  from cancelTicket_effect [OF d this, of r]
  show "\<exists>x. fst (cancelTicket s ck ticketId aid r) = TicketCancelled x" by simp
qed

lemma cancel_boundary:
  "fst (cancelTicket demo_booked (demo_clock (200000000 - 86400000)) 1 7 None) = TicketCancelled 0"
  "fst (cancelTicket demo_booked (demo_clock (200000000 - 86340000)) 1 7 None) = TooLateToCancel"
proof -
  let ?t = "demo_ticket 1 7 Active default_verification 1000"
  let ?e = "demo_event\<lparr>ticketsSold := 2\<rparr>"
  have f: "find (\<lambda>t. tid t = 1 \<and> attendeeId t = 7 \<and> status t = Active) (tickets demo_booked) = Some ?t"
    by (simp add: demo_booked_def demo_ticket_def)
  have ev: "events demo_booked (eventId ?t) = Some ?e"
    by (simp add: demo_booked_def demo_ticket_def)
  have far: "\<not> hoursUntilEvent (startDateTime ?e) (clockHours (demo_clock (200000000 - 86400000))) < 24"
    by (simp add: hours_lt_24_iff demo_event_def demo_clock_def)
  have near: "hoursUntilEvent (startDateTime ?e) (clockHours (demo_clock (200000000 - 86340000))) < 24"
    by (simp add: hours_lt_24_iff demo_event_def demo_clock_def)
  show "fst (cancelTicket demo_booked (demo_clock (200000000 - 86400000)) 1 7 None) = TicketCancelled 0"
    unfolding cancelTicket_Done [OF f ev far] by (simp add: demo_ticket_def)
  show "fst (cancelTicket demo_booked (demo_clock (200000000 - 86340000)) 1 7 None) = TooLateToCancel"
    unfolding cancelTicket_TooLate [OF f ev near] by simp
qed

text \<open>
  Claim C4, at an input where the code departs from it. Attendee 7 cancels ticket 1 of
  the example more than 24 hours before the event and gives a reason. The request
  succeeds and answers with the refund amount 0, the ticket's \<^verbatim>\<open>pricePaid\<close>; in the
  database the ticket has become cancelled, its \<^verbatim>\<open>updatedAt\<close> is the time of the save
  and the event's \<^verbatim>\<open>ticketsSold\<close> went from 2 to 1. That is all the handler leaves
  behind: the cancellation object it built, with the date, the reason and
  \<^verbatim>\<open>refundAmount\<close>, is in neither the answer nor the stored ticket.
\<close>

theorem cancelTicket_keeps_no_cancellation_record:
  "cancelTicket demo_booked (demo_clock 100000000) 1 7 (Some ''ill'') =
     (TicketCancelled 0,
      demo_booked\<lparr>events := [1 \<mapsto> demo_event\<lparr>ticketsSold := 1\<rparr>],
                   tickets := [demo_ticket 1 7 Cancelled default_verification 100000000,
                               demo_ticket 2 8 Active default_verification 1000]\<rparr>)"
proof -
  let ?t = "demo_ticket 1 7 Active default_verification 1000"
  let ?e = "demo_event\<lparr>ticketsSold := 2\<rparr>"
  have d: "distinct (map tid (tickets demo_booked))"
    by (simp add: demo_booked_def demo_ticket_def)
  have t: "?t \<in> set (tickets demo_booked)" "tid ?t = 1" "attendeeId ?t = 7" "status ?t = Active"
    by (simp_all add: demo_booked_def demo_ticket_def)
  have ev: "events demo_booked (eventId ?t) = Some ?e"
    by (simp add: demo_booked_def demo_ticket_def)
  have far: "24 * 60 * 60 * 1000 \<le> startDateTime ?e - clockHours (demo_clock 100000000)"
    by (simp add: demo_event_def demo_clock_def)
  show ?thesis
    unfolding cancelTicket_effect [OF d t ev far]
    by (simp add: demo_booked_def demo_ticket_def demo_defs)
qed

section \<open>Check-in\<close>

lemma scanTicket_found:
  assumes "truthy (reqTicketNumber rq) \<or> truthy (reqQrCodeData rq)"
    and "find (matches (build_query rq)) (tickets s) = Some t"
    and "events s (eventId t) = Some e"
  shows "scanTicket s now saved staffId rq =
    (if \<not> isAssigned e staffId then (NotAssignedToEvent, s)
     else if status t \<noteq> Active then (TicketInactive (status t), s)
     else if the_action rq = ''entry'' \<and> now < startDateTime e then (EventNotStarted, s)
     else if now > endDateTime e then (EventEnded, s)
     else if the_action rq = ''exit'' \<and> \<not> isScanned (verification t) then (ExitForUnscanned, s)
     else
       (case users s (attendeeId t) of
          None \<Rightarrow>
            (ServerErrorScanning,
             save_ticket s saved t
               (t\<lparr>verification := record_scan (verification t) (the_action rq) now staffId\<rparr>))
        | Some u \<Rightarrow>
            (ScanRecorded (the_action rq)
               \<lparr>dataTicketNumber = ticketNumber t,
                dataAttendeeName = firstName u @ '' '' @ lastName u,
                dataAttendeeEmail = email u,
                dataEventTitle = title e,
                dataEventStart = startDateTime e,
                dataVerification = record_scan (verification t) (the_action rq) now staffId,
                dataScanCount = scanCount (record_scan (verification t) (the_action rq) now staffId),
                isFirstScan = (scanCount (record_scan (verification t) (the_action rq) now staffId) = 1)\<rparr>,
             save_ticket s saved t
               (t\<lparr>verification := record_scan (verification t) (the_action rq) now staffId\<rparr>))))"
proof -
  have a: "\<not> (\<not> truthy (reqTicketNumber rq) \<and> \<not> truthy (reqQrCodeData rq))"
    using assms(1) by simp
  show ?thesis
    unfolding scanTicket_def Let_def
    by (simp only: a if_False assms(2,3) option.case)
qed

lemma record_scan_entry:
  "record_scan v ''entry'' now staffId =
     (if isScanned v then v\<lparr>scanCount := scanCount v + 1\<rparr>
      else v\<lparr>isScanned := True, scannedAt := Some now, scannedBy := Some staffId,
             entryTime := Some now, scanCount := 1\<rparr>)"
  by (simp add: record_scan_def or_zero_def)

lemma record_scan_entry_changes: "record_scan v ''entry'' now staffId \<noteq> v"
proof
  assume "record_scan v ''entry'' now staffId = v"
  then have "scanCount (record_scan v ''entry'' now staffId) = scanCount v"
    and "isScanned (record_scan v ''entry'' now staffId) = isScanned v"
    by simp_all
  then show False by (simp add: record_scan_entry split: if_splits)
qed

lemma entry_scan_saved:
  "save_ticket s saved t (t\<lparr>verification := record_scan (verification t) ''entry'' now staffId\<rparr>) =
   replace_ticket s
     (t\<lparr>verification := record_scan (verification t) ''entry'' now staffId, updatedAt := saved\<rparr>)"
proof -
  have "t\<lparr>verification := record_scan (verification t) ''entry'' now staffId\<rparr> \<noteq> t"
  proof
    assume "t\<lparr>verification := record_scan (verification t) ''entry'' now staffId\<rparr> = t"
    then have "verification (t\<lparr>verification := record_scan (verification t) ''entry'' now staffId\<rparr>) =
        verification t" by simp
    then show False using record_scan_entry_changes [of "verification t" now staffId] by simp
  qed
  then show ?thesis by (simp add: save_ticket_def)
qed

lemma scanTicket_entry:
  assumes key: "truthy (reqTicketNumber rq) \<or> truthy (reqQrCodeData rq)"
    and found: "find (matches (build_query rq)) (tickets s) = Some t"
    and ev: "events s (eventId t) = Some e"
    and staff: "isAssigned e staffId"
    and active: "status t = Active"
    and window: "startDateTime e \<le> now" "now \<le> endDateTime e"
    and entry: "the_action rq = ''entry''"
  shows "snd (scanTicket s now saved staffId rq) =
           replace_ticket s
             (t\<lparr>verification := record_scan (verification t) ''entry'' now staffId,
                updatedAt := saved\<rparr>)"
    and "users s (attendeeId t) = Some u \<Longrightarrow>
         fst (scanTicket s now saved staffId rq) =
           ScanRecorded ''entry''
             \<lparr>dataTicketNumber = ticketNumber t,
              dataAttendeeName = firstName u @ '' '' @ lastName u,
              dataAttendeeEmail = email u,
              dataEventTitle = title e,
              dataEventStart = startDateTime e,
              dataVerification = record_scan (verification t) ''entry'' now staffId,
              dataScanCount = scanCount (record_scan (verification t) ''entry'' now staffId),
              isFirstScan = (scanCount (record_scan (verification t) ''entry'' now staffId) = 1)\<rparr>"
  unfolding scanTicket_found [OF key found ev]
  using staff active window entry by (simp_all add: entry_scan_saved split: option.split)

lemma matches_frame: "matches q (t\<lparr>verification := v, updatedAt := w\<rparr>) = matches q t"
  by (simp add: matches_def split: option.split)

lemmas scan_defs =
  scanTicket_def the_action_def truthy_def build_query_def matches_def isAssigned_def
  record_scan_def or_zero_def save_ticket_def replace_ticket_def Let_def

lemmas demo_scan_defs =
  demo_scanned_def demo_booked_def demo_ticket_def demo_rq_def first_scan_def
  default_verification_def default_checkIn_def dec.simps

lemma entry_scan_step:
  assumes key: "truthy (reqTicketNumber rq) \<or> truthy (reqQrCodeData rq)"
    and found: "find (matches (build_query rq)) (tickets s) = Some t"
    and ev: "events s (eventId t) = Some e"
    and staff: "isAssigned e staffId"
    and active: "status t = Active"
    and window: "startDateTime e \<le> now" "now \<le> endDateTime e"
    and entry: "the_action rq = ''entry''"
    and att: "users s (attendeeId t) = Some u"
    and counted: "isScanned (verification t) \<longrightarrow> 1 \<le> scanCount (verification t)"
  shows "\<exists>d s'. scanTicket s now saved staffId rq = (ScanRecorded ''entry'' d, s') \<and>
           dataScanCount d = (if isScanned (verification t) then scanCount (verification t) + 1 else 1) \<and>
           isFirstScan d = (\<not> isScanned (verification t)) \<and>
           find (matches (build_query rq)) (tickets s') =
             Some (t\<lparr>verification := dataVerification d, updatedAt := saved\<rparr>) \<and>
           isScanned (dataVerification d) \<and>
           scanCount (dataVerification d) = dataScanCount d \<and>
           1 \<le> dataScanCount d \<and>
           events s' = events s \<and> users s' = users s"
proof -
  let ?v = "record_scan (verification t) ''entry'' now staffId"
  let ?t = "t\<lparr>verification := ?v, updatedAt := saved\<rparr>"
  note sc = scanTicket_entry [OF key found ev staff active window entry]
  have m: "matches (build_query rq) ?t"
    using find_SomeD [OF found] by (simp only: matches_frame)
  have again: "find (matches (build_query rq)) (tickets (replace_ticket s ?t)) = Some ?t"
    unfolding replace_ticket_def using find_replace [OF found m] by simp
  have cnt: "scanCount ?v = (if isScanned (verification t) then scanCount (verification t) + 1 else 1)"
    and scanned: "isScanned ?v"
    by (simp_all add: record_scan_entry)
  have first: "(scanCount ?v = 1) = (\<not> isScanned (verification t))"
    using counted by (auto simp: record_scan_entry)
  have pos: "1 \<le> scanCount ?v"
    using counted by (auto simp: record_scan_entry)
  have "scanTicket s now saved staffId rq =
      (fst (scanTicket s now saved staffId rq), snd (scanTicket s now saved staffId rq))"
    by simp
  then show ?thesis
    unfolding sc(1) sc(2) [OF att]
    using again cnt scanned first pos by (simp add: replace_ticket_def)
qed

lemma map_upt_shift: "map f [1..<Suc (Suc n)] = f 1 # map (\<lambda>k. f (Suc k)) [1..<Suc n]"
proof -
  have "[1..<Suc (Suc n)] = 1 # [Suc 1..<Suc (Suc n)]"
    by (rule upt_conv_Cons) simp
  also have "[Suc 1..<Suc (Suc n)] = map Suc [1..<Suc n]"
    by (rule map_Suc_upt [symmetric])
  finally show ?thesis by (simp only: list.map map_map comp_def)
qed

lemma entry_scans_summary:
  assumes key: "truthy (reqTicketNumber rq) \<or> truthy (reqQrCodeData rq)"
    and entry: "the_action rq = ''entry''"
    and found: "find (matches (build_query rq)) (tickets s) = Some t"
    and ev: "events s (eventId t) = Some e"
    and active: "status t = Active"
    and att: "users s (attendeeId t) = Some u"
    and counted: "isScanned (verification t) \<longrightarrow> 1 \<le> scanCount (verification t)"
    and each: "\<forall>(now, saved, staffId)\<in>set xs.
                 isAssigned e staffId \<and> startDateTime e \<le> now \<and> now \<le> endDateTime e"
  shows "map scan_summary (entry_scans s rq xs) =
           map (\<lambda>k. Some (counted_so_far t + int k,
                           \<not> isScanned (verification t) \<and> k = 1)) [1..<Suc (length xs)]"
  using found ev active att counted each
proof (induction xs arbitrary: s t)
  case Nil
  then show ?case by simp
next
  case (Cons x xs)
  obtain now saved staffId where x: "x = (now, saved, staffId)" by (cases x)
  from Cons.prems(6) have here: "isAssigned e staffId" "startDateTime e \<le> now" "now \<le> endDateTime e"
    and rest: "\<forall>(now, saved, staffId)\<in>set xs.
                 isAssigned e staffId \<and> startDateTime e \<le> now \<and> now \<le> endDateTime e"
    by (simp_all add: x)
  from entry_scan_step [OF key Cons.prems(1,2) here(1) Cons.prems(3) here(2,3) entry Cons.prems(4,5)]
  obtain d s' where step: "scanTicket s now saved staffId rq = (ScanRecorded ''entry'' d, s')"
    and cnt: "dataScanCount d = (if isScanned (verification t) then scanCount (verification t) + 1 else 1)"
    and first: "isFirstScan d = (\<not> isScanned (verification t))"
    and found': "find (matches (build_query rq)) (tickets s') =
                   Some (t\<lparr>verification := dataVerification d, updatedAt := saved\<rparr>)"
    and scanned': "isScanned (dataVerification d)"
    and stored: "scanCount (dataVerification d) = dataScanCount d"
    and pos: "1 \<le> dataScanCount d"
    and same: "events s' = events s" "users s' = users s"
    by blast
  let ?t = "t\<lparr>verification := dataVerification d, updatedAt := saved\<rparr>"
  have c': "counted_so_far ?t = counted_so_far t + 1"
    using scanned' stored cnt by (simp add: counted_so_far_def)
  have IH: "map scan_summary (entry_scans s' rq xs) =
        map (\<lambda>k. Some (counted_so_far ?t + int k,
                        \<not> isScanned (verification ?t) \<and> k = 1)) [1..<Suc (length xs)]"
  proof (rule Cons.IH [OF found'])
    show "events s' (eventId ?t) = Some e" using Cons.prems(2) same by simp
    show "status ?t = Active" using Cons.prems(3) by simp
    show "users s' (attendeeId ?t) = Some u" using Cons.prems(4) same by simp
    show "isScanned (verification ?t) \<longrightarrow> 1 \<le> scanCount (verification ?t)"
      using stored pos by simp
    show "\<forall>(now, saved, staffId)\<in>set xs.
            isAssigned e staffId \<and> startDateTime e \<le> now \<and> now \<le> endDateTime e"
      by (rule rest)
  qed
  have head: "scan_summary (fst (scanTicket s now saved staffId rq)) =
        Some (counted_so_far t + int 1, \<not> isScanned (verification t) \<and> (1::nat) = 1)"
    unfolding step using cnt first by (simp add: scan_summary_def counted_so_far_def)
  have "map (\<lambda>k. Some (counted_so_far ?t + int k,
                        \<not> isScanned (verification ?t) \<and> k = 1)) [1..<Suc (length xs)] =
        map (\<lambda>k. Some (counted_so_far t + int (Suc k),
                        \<not> isScanned (verification t) \<and> Suc k = 1)) [1..<Suc (length xs)]"
  proof (rule map_cong [OF refl])
    fix k assume "k \<in> set [1..<Suc (length xs)]"
    then have "1 \<le> k" by (simp only: set_upt atLeastLessThan_iff)
    then show "Some (counted_so_far ?t + int k, \<not> isScanned (verification ?t) \<and> k = 1) =
               Some (counted_so_far t + int (Suc k), \<not> isScanned (verification t) \<and> Suc k = 1)"
      using scanned' by (simp add: c')
  qed
  with IH have tail: "map scan_summary (entry_scans (snd (scanTicket s now saved staffId rq)) rq xs) =
        map (\<lambda>k. Some (counted_so_far t + int (Suc k),
                        \<not> isScanned (verification t) \<and> Suc k = 1)) [1..<Suc (length xs)]"
    unfolding step by (simp only: snd_conv)
  show ?case
    unfolding x entry_scans.simps list.map length_Cons map_upt_shift
    by (simp only: head tail)
qed

text \<open>
  Claim C5. Take a scan request for entry (the action is \<^verbatim>\<open>entry\<close>, also by default)
  whose key resolves to an active ticket, the ticket's event and attendee existing, and
  a ticket that, if scanned already, has a scan count of at least 1. Then an entry scan
  by a staff member assigned to the event, between the event's start and end, never
  fails: it answers with the count raised by exactly one on a scanned ticket and
  \<^verbatim>\<open>isFirstScan = false\<close>, and with count 1 and \<^verbatim>\<open>isFirstScan = true\<close> on a ticket not
  yet scanned, and the same key then resolves to the ticket with that count stored (and
  \<^verbatim>\<open>updatedAt\<close> the time of the save). And every sequence of such scans, each by some
  assigned staff member at some time within the event, succeeds throughout: the
  \<open>k\<close>-th answer carries the count before the sequence plus \<open>k\<close>, and \<^verbatim>\<open>isFirstScan\<close>
  holds for the first scan of a ticket not scanned before and for no other.
\<close>

theorem entry_scan_counts:
  assumes key: "truthy (reqTicketNumber rq) \<or> truthy (reqQrCodeData rq)"
    and found: "find (matches (build_query rq)) (tickets s) = Some t"
    and ev: "events s (eventId t) = Some e"
    and staff: "isAssigned e staffId"
    and active: "status t = Active"
    and window: "startDateTime e \<le> now" "now \<le> endDateTime e"
    and entry: "the_action rq = ''entry''"
    and att: "users s (attendeeId t) = Some u"
    and counted: "isScanned (verification t) \<longrightarrow> 1 \<le> scanCount (verification t)"
    and each: "\<forall>(now, saved, staffId)\<in>set xs.
                 isAssigned e staffId \<and> startDateTime e \<le> now \<and> now \<le> endDateTime e"
  shows "(\<exists>d s'. scanTicket s now saved staffId rq = (ScanRecorded ''entry'' d, s') \<and>
            dataScanCount d =
              (if isScanned (verification t) then scanCount (verification t) + 1 else 1) \<and>
            isFirstScan d = (\<not> isScanned (verification t)) \<and>
            find (matches (build_query rq)) (tickets s') =
              Some (t\<lparr>verification := dataVerification d, updatedAt := saved\<rparr>) \<and>
            isScanned (dataVerification d) \<and>
            scanCount (dataVerification d) = dataScanCount d) \<and>
         map scan_summary (entry_scans s rq xs) =
           map (\<lambda>k. Some (counted_so_far t + int k,
                           \<not> isScanned (verification t) \<and> k = 1)) [1..<Suc (length xs)]"
proof
  from entry_scan_step [OF key found ev staff active window entry att counted]
  show "\<exists>d s'. scanTicket s now saved staffId rq = (ScanRecorded ''entry'' d, s') \<and>
            dataScanCount d =
              (if isScanned (verification t) then scanCount (verification t) + 1 else 1) \<and>
            isFirstScan d = (\<not> isScanned (verification t)) \<and>
            find (matches (build_query rq)) (tickets s') =
              Some (t\<lparr>verification := dataVerification d, updatedAt := saved\<rparr>) \<and>
            isScanned (dataVerification d) \<and>
            scanCount (dataVerification d) = dataScanCount d"
    by blast
  from key entry found ev active att counted each
  show "map scan_summary (entry_scans s rq xs) =
           map (\<lambda>k. Some (counted_so_far t + int k,
                           \<not> isScanned (verification t) \<and> k = 1)) [1..<Suc (length xs)]"
    by (rule entry_scans_summary)
qed

theorem entry_scan_counts_witness:
  "find (matches (build_query demo_rq)) (tickets demo_booked) =
     Some (demo_ticket 1 7 Active default_verification 1000) \<and>
   isAssigned (demo_event\<lparr>ticketsSold := 2\<rparr>) 3 \<and>
   isAssigned (demo_event\<lparr>ticketsSold := 2\<rparr>) 4 \<and>
   (\<exists>d s'. scanTicket demo_booked 200000000 200000001 3 demo_rq = (ScanRecorded ''entry'' d, s') \<and>
      dataScanCount d = 1 \<and> isFirstScan d) \<and>
   map scan_summary
     (entry_scans demo_booked demo_rq
        [(200000000, 200000001, 3), (200000500, 200000501, 4), (200000900, 200000901, 3)]) =
     [Some (1, True), Some (2, False), Some (3, False)]"
proof -
  let ?t = "demo_ticket 1 7 Active default_verification 1000"
  let ?e = "demo_event\<lparr>ticketsSold := 2\<rparr>"
  let ?xs = "[(200000000, 200000001, 3), (200000500, 200000501, 4), (200000900, 200000901, 3)]
    :: (date \<times> date \<times> oid) list"
  have key: "truthy (reqTicketNumber demo_rq) \<or> truthy (reqQrCodeData demo_rq)"
    by (simp add: demo_rq_def truthy_def)
  have found: "find (matches (build_query demo_rq)) (tickets demo_booked) = Some ?t"
    by (simp add: demo_scan_defs scan_defs)
  have ev: "events demo_booked (eventId ?t) = Some ?e"
    by (simp add: demo_scan_defs)
  have staff: "isAssigned ?e 3" "isAssigned ?e 4" by (simp_all add: isAssigned_def demo_event_def)
  have active: "status ?t = Active" by (simp add: demo_ticket_def)
  have window: "startDateTime ?e \<le> 200000000" "200000000 \<le> endDateTime ?e"
    by (simp_all add: demo_event_def)
  have entry: "the_action demo_rq = ''entry''" by (simp add: the_action_def demo_rq_def)
  have att: "users demo_booked (attendeeId ?t) =
      Some \<lparr>firstName = ''Ann'', lastName = ''A'', email = ''ann@x''\<rparr>"
    by (simp add: demo_scan_defs demo_defs)
  have counted: "isScanned (verification ?t) \<longrightarrow> 1 \<le> scanCount (verification ?t)"
    by (simp add: demo_ticket_def default_verification_def)
  have each: "\<forall>(now, saved, staffId)\<in>set ?xs.
      isAssigned ?e staffId \<and> startDateTime ?e \<le> now \<and> now \<le> endDateTime ?e"
    by (simp add: isAssigned_def demo_event_def)
  note th = entry_scan_counts
    [OF key found ev staff(1) active window entry att counted each, of 200000001]
  from th [THEN conjunct1]
  obtain d s' where "scanTicket demo_booked 200000000 200000001 3 demo_rq = (ScanRecorded ''entry'' d, s')"
    and "dataScanCount d = (if isScanned (verification ?t) then scanCount (verification ?t) + 1 else 1)"
    and "isFirstScan d = (\<not> isScanned (verification ?t))"
    by blast
  then have "scanTicket demo_booked 200000000 200000001 3 demo_rq = (ScanRecorded ''entry'' d, s') \<and>
      dataScanCount d = 1 \<and> isFirstScan d"
    by (simp add: demo_ticket_def default_verification_def)
  then have one: "\<exists>d s'. scanTicket demo_booked 200000000 200000001 3 demo_rq =
      (ScanRecorded ''entry'' d, s') \<and> dataScanCount d = 1 \<and> isFirstScan d" by blast
  have "map (\<lambda>k. Some (counted_so_far ?t + int k, \<not> isScanned (verification ?t) \<and> k = 1))
          [1..<Suc (length ?xs)] = [Some (1, True), Some (2, False), Some (3, False)]"
    by (simp add: counted_so_far_def demo_ticket_def default_verification_def upt_rec)
  with th [THEN conjunct2]
  have many: "map scan_summary (entry_scans demo_booked demo_rq ?xs) =
      [Some (1, True), Some (2, False), Some (3, False)]"
    by (simp only:)
  from found staff one many show ?thesis by (intro conjI)
qed

section \<open>What a scan leaves alone\<close>

lemma scanned_kept:
  assumes "isScanned v"
  shows "isScanned (record_scan v a now staffId) \<and> scannedBy (record_scan v a now staffId) = scannedBy v"
  using assms by (simp add: record_scan_def)

lemma scanTicket_tickets:
  "snd (scanTicket s now saved staffId rq) = s \<or>
   (\<exists>t. find (matches (build_query rq)) (tickets s) = Some t \<and>
        snd (scanTicket s now saved staffId rq) =
          replace_ticket s
            (t\<lparr>verification := record_scan (verification t) (the_action rq) now staffId,
               updatedAt := saved\<rparr>))"
proof (cases "truthy (reqTicketNumber rq) \<or> truthy (reqQrCodeData rq)")
  case False
  then show ?thesis by (simp add: scanTicket_def)
next
  case key: True
  show ?thesis
  proof (cases "find (matches (build_query rq)) (tickets s)")
    case None
    show ?thesis using key unfolding scanTicket_def Let_def by (simp only: None option.case) simp
  next
    case (Some t)
    show ?thesis
    proof (cases "events s (eventId t)")
      case None
      show ?thesis using key unfolding scanTicket_def Let_def
        by (simp only: Some None option.case) simp
    next
      case ev: (Some e)
      show ?thesis
        unfolding scanTicket_found [OF key Some ev] Some
        by (simp add: save_ticket_def split: option.split)
    qed
  qed
qed

lemma scanTicket_keeps_scanner:
  assumes inv: "\<forall>t\<in>set (tickets s). tid t = i \<longrightarrow>
                 isScanned (verification t) \<and> scannedBy (verification t) = b"
  shows "\<forall>t\<in>set (tickets (snd (scanTicket s now saved staffId rq))). tid t = i \<longrightarrow>
           isScanned (verification t) \<and> scannedBy (verification t) = b"
proof -
  from scanTicket_tickets [of s now saved staffId rq]
  consider "snd (scanTicket s now saved staffId rq) = s"
    | t where "find (matches (build_query rq)) (tickets s) = Some t"
        "snd (scanTicket s now saved staffId rq) =
          replace_ticket s
            (t\<lparr>verification := record_scan (verification t) (the_action rq) now staffId,
               updatedAt := saved\<rparr>)"
    by blast
  then show ?thesis
  proof cases
    case 1
    with inv show ?thesis by simp
  next
    case 2
    let ?t = "t\<lparr>verification := record_scan (verification t) (the_action rq) now staffId,
                 updatedAt := saved\<rparr>"
    have tin: "t \<in> set (tickets s)" using find_SomeD [OF 2(1)] by simp
    show ?thesis
    proof (intro ballI impI)
      fix x assume x: "x \<in> set (tickets (snd (scanTicket s now saved staffId rq)))" "tid x = i"
      from x(1) obtain y where y: "y \<in> set (tickets s)" "x = (if tid y = tid ?t then ?t else y)"
        unfolding 2(2) replace_ticket_def by auto
      show "isScanned (verification x) \<and> scannedBy (verification x) = b"
      proof (cases "tid y = tid ?t")
        case True
        with y(2) x(2) have "x = ?t" "tid t = i" by simp_all
        with inv tin scanned_kept [of "verification t" "the_action rq" now staffId]
        show ?thesis by simp
      next
        case False
        with y x(2) inv show ?thesis by simp
      qed
    qed
  qed
qed

lemma scannedBy_permanent:
  assumes "\<forall>t\<in>set (tickets s). tid t = i \<longrightarrow>
             isScanned (verification t) \<and> scannedBy (verification t) = b"
  shows "\<forall>t\<in>set (tickets (run_scans s rs)). tid t = i \<longrightarrow>
           isScanned (verification t) \<and> scannedBy (verification t) = b"
  using assms
proof (induction rs arbitrary: s)
  case Nil
  then show ?case by simp
next
  case (Cons r rs)
  obtain now saved staffId rq where r: "r = (now, saved, staffId, rq)" by (cases r)
  from Cons.prems have "\<forall>t\<in>set (tickets (snd (scanTicket s now saved staffId rq))). tid t = i \<longrightarrow>
           isScanned (verification t) \<and> scannedBy (verification t) = b"
    by (rule scanTicket_keeps_scanner)
  then show ?case unfolding r run_scans.simps by (rule Cons.IH)
qed

text \<open>
  Against claim C10 as stated: staff member 4 scans ticket 1 of the example again, half
  a second into the event. The scan is a re-scan (the answer carries count 2), and
  besides the count it changes the ticket's \<^verbatim>\<open>updatedAt\<close>, from the time of the first
  scan to the time of this save.
\<close>

theorem rescan_writes_updatedAt_counterexample:
  "map updatedAt (tickets demo_scanned) = [200000000, 1000] \<and>
   scan_summary (fst (scanTicket demo_scanned 200000500 200000501 4 demo_rq)) = Some (2, False) \<and>
   map updatedAt (tickets (snd (scanTicket demo_scanned 200000500 200000501 4 demo_rq))) =
     [200000501, 1000]"
  by (simp add: demo_scan_defs demo_defs scan_defs scan_summary_def)

text \<open>
  Claim C10, amended. In a store whose tickets have distinct ids, an entry scan of an
  already-scanned ticket that passes the checks replaces that ticket by itself with
  \<^verbatim>\<open>verification.scanCount\<close> one higher and \<^verbatim>\<open>updatedAt\<close> set to the time of the save,
  and changes nothing else: not the other verification fields (\<^verbatim>\<open>isScanned\<close>,
  \<^verbatim>\<open>scannedAt\<close>, \<^verbatim>\<open>scannedBy\<close>, \<^verbatim>\<open>entryTime\<close>, \<^verbatim>\<open>exitTime\<close>), not the status or any
  other field of the ticket, not another ticket, event, user or payment. And
  \<^verbatim>\<open>scannedBy\<close> records the first scanner for good: after an entry scan that passes the
  checks, whatever scans follow, by whichever staff and with whichever action, the
  ticket stays scanned and \<^verbatim>\<open>scannedBy\<close> is the staff member of this scan when the
  ticket was not scanned before, and the staff member recorded before otherwise.
\<close>

theorem rescan_changes_scanCount_and_updatedAt:
  assumes key: "truthy (reqTicketNumber rq) \<or> truthy (reqQrCodeData rq)"
    and found: "find (matches (build_query rq)) (tickets s) = Some t"
    and ev: "events s (eventId t) = Some e"
    and staff: "isAssigned e staffId"
    and active: "status t = Active"
    and window: "startDateTime e \<le> now" "now \<le> endDateTime e"
    and entry: "the_action rq = ''entry''"
    and d: "distinct (map tid (tickets s))"
  shows "(isScanned (verification t) \<longrightarrow>
            snd (scanTicket s now saved staffId rq) =
              s\<lparr>tickets :=
                  map (\<lambda>x. if x = t
                        then t\<lparr>verification :=
                               (verification t)\<lparr>scanCount := scanCount (verification t) + 1\<rparr>,
                              updatedAt := saved\<rparr>
                        else x) (tickets s)\<rparr>) \<and>
         (\<forall>rs. \<forall>x\<in>set (tickets (run_scans (snd (scanTicket s now saved staffId rq)) rs)).
             tid x = tid t \<longrightarrow>
             isScanned (verification x) \<and>
             scannedBy (verification x) =
               (if isScanned (verification t) then scannedBy (verification t) else Some staffId))"
proof (intro conjI impI)
  let ?v = "record_scan (verification t) ''entry'' now staffId"
  let ?t = "t\<lparr>verification := ?v, updatedAt := saved\<rparr>"
  have tin: "t \<in> set (tickets s)" using find_SomeD [OF found] by simp
  note post = scanTicket_entry(1) [OF key found ev staff active window entry, of saved]
  have rep: "map (\<lambda>u. if tid u = tid ?t then ?t else u) (tickets s) =
        map (\<lambda>u. if u = t then ?t else u) (tickets s)"
    using d tin by (rule replace_distinct) simp
  {
    assume scanned: "isScanned (verification t)"
    then have rs: "?v = (verification t)\<lparr>scanCount := scanCount (verification t) + 1\<rparr>"
      by (simp add: record_scan_entry)
    show "snd (scanTicket s now saved staffId rq) =
        s\<lparr>tickets :=
            map (\<lambda>x. if x = t
                  then t\<lparr>verification :=
                         (verification t)\<lparr>scanCount := scanCount (verification t) + 1\<rparr>,
                        updatedAt := saved\<rparr>
                  else x) (tickets s)\<rparr>"
      using rep unfolding post replace_ticket_def rs by simp
  }
  let ?b = "if isScanned (verification t) then scannedBy (verification t) else Some staffId"
  have v: "isScanned ?v" "scannedBy ?v = ?b"
    by (simp_all add: record_scan_entry)
  have "\<forall>x\<in>set (tickets (snd (scanTicket s now saved staffId rq))). tid x = tid t \<longrightarrow>
          isScanned (verification x) \<and> scannedBy (verification x) = ?b"
  proof (intro ballI impI)
    fix x assume x: "x \<in> set (tickets (snd (scanTicket s now saved staffId rq)))" "tid x = tid t"
    from x(1) obtain y where y: "y \<in> set (tickets s)" "x = (if tid y = tid ?t then ?t else y)"
      unfolding post replace_ticket_def by auto
    from y(2) x(2) have "x = ?t" by (cases "tid y = tid ?t") simp_all
    with v show "isScanned (verification x) \<and> scannedBy (verification x) = ?b" by simp
  qed
  then have "\<forall>x\<in>set (tickets (run_scans (snd (scanTicket s now saved staffId rq)) rs)).
      tid x = tid t \<longrightarrow> isScanned (verification x) \<and> scannedBy (verification x) = ?b" for rs
    by (rule scannedBy_permanent)
  then show "\<forall>rs. \<forall>x\<in>set (tickets (run_scans (snd (scanTicket s now saved staffId rq)) rs)).
             tid x = tid t \<longrightarrow>
             isScanned (verification x) \<and> scannedBy (verification x) = ?b"
    by blast
qed

theorem rescan_changes_scanCount_and_updatedAt_witness:
  "find (matches (build_query demo_rq)) (tickets demo_scanned) =
     Some (demo_ticket 1 7 Active first_scan 200000000) \<and>
   isScanned (verification (demo_ticket 1 7 Active first_scan 200000000)) \<and>
   distinct (map tid (tickets demo_scanned)) \<and>
   snd (scanTicket demo_scanned 200000500 200000501 4 demo_rq) =
     demo_scanned\<lparr>tickets := [demo_ticket 1 7 Active (first_scan\<lparr>scanCount := 2\<rparr>) 200000501,
                               demo_ticket 2 8 Active default_verification 1000]\<rparr> \<and>
   scannedBy (first_scan\<lparr>scanCount := 2\<rparr>) = Some 3"
proof -
  let ?t = "demo_ticket 1 7 Active first_scan 200000000"
  let ?e = "demo_event\<lparr>ticketsSold := 2\<rparr>"
  have key: "truthy (reqTicketNumber demo_rq) \<or> truthy (reqQrCodeData demo_rq)"
    by (simp add: demo_rq_def truthy_def)
  have found: "find (matches (build_query demo_rq)) (tickets demo_scanned) = Some ?t"
    by (simp add: demo_scan_defs scan_defs)
  have ev: "events demo_scanned (eventId ?t) = Some ?e"
    by (simp add: demo_scan_defs)
  have staff: "isAssigned ?e 4" by (simp add: isAssigned_def demo_event_def)
  have active: "status ?t = Active" by (simp add: demo_ticket_def)
  have window: "startDateTime ?e \<le> 200000500" "200000500 \<le> endDateTime ?e"
    by (simp_all add: demo_event_def)
  have entry: "the_action demo_rq = ''entry''" by (simp add: the_action_def demo_rq_def)
  have scanned: "isScanned (verification ?t)" by (simp add: demo_ticket_def first_scan_def)
  have d: "distinct (map tid (tickets demo_scanned))" by (simp add: demo_scan_defs)
  note r = rescan_changes_scanCount_and_updatedAt
    [OF key found ev staff active window entry d, of 200000501, THEN conjunct1, rule_format, OF scanned]
  have "snd (scanTicket demo_scanned 200000500 200000501 4 demo_rq) =
     demo_scanned\<lparr>tickets := [demo_ticket 1 7 Active (first_scan\<lparr>scanCount := 2\<rparr>) 200000501,
                               demo_ticket 2 8 Active default_verification 1000]\<rparr>"
    unfolding r by (simp add: demo_scan_defs)
  moreover have "scannedBy (first_scan\<lparr>scanCount := 2\<rparr>) = Some 3"
    by (simp add: first_scan_def)
  ultimately show ?thesis using found scanned d by (intro conjI)
qed

text \<open>
  The first scanner in the example: staff member 3 scans ticket 1 first, staff member 4
  scans it again and records its exit; \<^verbatim>\<open>scannedBy\<close> is staff member 3 throughout.
\<close>

lemma first_scanner_example:
  "map (\<lambda>t. scannedBy (verification t))
     (tickets (run_scans demo_booked
        [(200000000, 200000001, 3, demo_rq),
         (200000500, 200000501, 4, demo_rq),
         (200000900, 200000901, 4, demo_rq\<lparr>reqAction := Some ''exit''\<rparr>)])) =
   [Some 3, None]"
  by (simp add: demo_scan_defs demo_defs scan_defs)

text \<open>
  Every handler keeps the scan count of scanned tickets positive: a new ticket is not
  scanned, a cancellation leaves the verification alone, and a scan that marks a ticket
  sets the count to 1 or raises it.
\<close>

lemma record_scan_counted:
  "isScanned v \<longrightarrow> 1 \<le> scanCount v \<Longrightarrow>
   isScanned (record_scan v a now staffId) \<longrightarrow> 1 \<le> scanCount (record_scan v a now staffId)"
  by (auto simp: record_scan_def or_zero_def)

lemma scanTicket_counted:
  assumes "\<forall>t\<in>set (tickets s). scan_counted t"
  shows "\<forall>t\<in>set (tickets (snd (scanTicket s now saved staffId rq))). scan_counted t"
proof -
  from scanTicket_tickets [of s now saved staffId rq]
  consider "snd (scanTicket s now saved staffId rq) = s"
    | t where "find (matches (build_query rq)) (tickets s) = Some t"
        "snd (scanTicket s now saved staffId rq) =
          replace_ticket s
            (t\<lparr>verification := record_scan (verification t) (the_action rq) now staffId,
               updatedAt := saved\<rparr>)"
    by blast
  then show ?thesis
  proof cases
    case 1
    with assms show ?thesis by simp
  next
    case 2
    have "scan_counted t" using find_SomeD [OF 2(1)] assms by simp
    then have "scan_counted (t\<lparr>verification := record_scan (verification t) (the_action rq) now staffId,
        updatedAt := saved\<rparr>)"
      unfolding scan_counted_def using record_scan_counted [of "verification t"] by simp
    with assms show ?thesis unfolding 2(2) replace_ticket_def by auto
  qed
qed

lemma bookTicket_counted:
  assumes "\<forall>t\<in>set (tickets s). scan_counted t"
  shows "\<forall>t\<in>set (tickets (snd (bookTicket s env eid aid ai))). scan_counted t"
proof (cases "events s eid")
  case None
  with assms show ?thesis by (simp add: bookTicket_NotFound)
next
  case (Some e)
  have "scan_counted (free_ticket s env eid aid ai)"
    by (simp add: scan_counted_def free_ticket_def default_verification_def)
  with assms show ?thesis unfolding bookTicket_Some [OF Some] by simp
qed

lemma cancelTicket_counted:
  assumes "\<forall>t\<in>set (tickets s). scan_counted t"
  shows "\<forall>t\<in>set (tickets (snd (cancelTicket s ck ticketId aid r))). scan_counted t"
proof (cases "find (\<lambda>t. tid t = ticketId \<and> attendeeId t = aid \<and> status t = Active) (tickets s)")
  case None
  show ?thesis using assms by (simp add: cancelTicket_NotFound [OF None])
next
  case (Some t)
  have t: "scan_counted (t\<lparr>status := Cancelled, updatedAt := clockUpdated ck\<rparr>)"
    using find_SomeD [OF Some] assms by (simp add: scan_counted_def)
  show ?thesis
  proof (cases "events s (eventId t)")
    case None
    show ?thesis using assms by (simp add: cancelTicket_NoEvent [OF Some None])
  next
    case ev: (Some e)
    show ?thesis
    proof (cases "hoursUntilEvent (startDateTime e) (clockHours ck) < 24")
      case True
      show ?thesis using assms by (simp add: cancelTicket_TooLate [OF Some ev True])
    next
      case False
      show ?thesis
        using assms t ev
        by (auto simp: cancelTicket_Done [OF Some ev False] replace_ticket_def inc_ticketsSold_def)
    qed
  qed
qed

section \<open>Booking\<close>

lemma find_dup_iff: "find P xs \<noteq> None \<longleftrightarrow> (\<exists>x\<in>set xs. P x)"
  by (induction xs) auto

lemma bookTicket_precondition_errors:
  "events s eid = None \<Longrightarrow> bookTicket s env eid aid ai = (EventNotFound, s)"
  "events s eid = Some e \<Longrightarrow> eventStatus e \<noteq> Published \<Longrightarrow>
     bookTicket s env eid aid ai = (NotAvailableForBooking, s)"
  "events s eid = Some e \<Longrightarrow> eventStatus e = Published \<Longrightarrow>
     startDateTime e \<le> clockCheck env \<Longrightarrow>
     bookTicket s env eid aid ai = (AlreadyStarted, s)"
  "events s eid = Some e \<Longrightarrow> eventStatus e = Published \<Longrightarrow>
     clockCheck env < startDateTime e \<Longrightarrow> capacity e \<le> ticketsSold e \<Longrightarrow>
     bookTicket s env eid aid ai = (SoldOut, s)"
  "events s eid = Some e \<Longrightarrow> eventStatus e = Published \<Longrightarrow>
     clockCheck env < startDateTime e \<Longrightarrow> ticketsSold e < capacity e \<Longrightarrow>
     find (\<lambda>t. eventId t = eid \<and> attendeeId t = aid \<and> status t \<noteq> Cancelled) (tickets s) = Some t \<Longrightarrow>
     bookTicket s env eid aid ai = (AlreadyHaveTicket, s)"
  by (simp_all add: bookTicket_NotFound bookTicket_Some)

lemma bookTicket_passed:
  assumes "events s eid = Some e" "eventStatus e = Published" "clockCheck env < startDateTime e"
    and "ticketsSold e < capacity e"
    and "find (\<lambda>t. eventId t = eid \<and> attendeeId t = aid \<and> status t \<noteq> Cancelled) (tickets s) = None"
  shows "bookTicket s env eid aid ai =
     (if isFree (pricing e) then
        (if keys_new s env
         then (FreeTicketBooked (Some (free_ticket s env eid aid ai)),
               s\<lparr>tickets := tickets s @ [free_ticket s env eid aid ai],
                  events := (events s)(eid \<mapsto> e\<lparr>ticketsSold := ticketsSold e + 1\<rparr>)\<rparr>)
         else (ServerErrorBooking, s))
      else (ProceedToPayment (price (pricing e)) (currency (pricing e)), s))"
  unfolding bookTicket_Some [OF assms(1)] keys_new_iff [of s env eid aid ai]
  using assms(2-5) by simp






lemmas cancel_defs = cancelTicket_def hours_lt_24_iff

lemma demo_rebook_run:
  "run_ops demo_store demo_rebook =
     demo_store\<lparr>tickets := [(free_ticket demo_store (demo_env 1000 5 ''aa'') 1 7 no_info)
                               \<lparr>status := Cancelled, updatedAt := 4000\<rparr>]\<rparr>"
  by (simp add: demo_rebook_def demo_defs ledger_defs cancel_defs)


section \<open>Booking again after a cancellation\<close>

text \<open>
  Claim C9, at an input where the code departs from it. On the new example event,
  attendee 7 books and cancels a day ahead, so the store holds one ticket for the pair
  of this event and attendee, cancelled. The duplicate check of the attendee's next
  booking passes over the cancelled ticket, as the claim says, but the insert is not
  refused: no unique index on event and attendee is in force, because the schema
  declares the plain index on the same fields first. The booking succeeds, and the store
  then holds two tickets of the pair, one cancelled and one active.
\<close>

theorem rebooking_after_cancellation_succeeds:
  "map (\<lambda>t. (eventId t, attendeeId t, status t)) (tickets (run_ops demo_store demo_rebook)) =
     [(1, 7, Cancelled)] \<and>
   insert_ticket (run_ops demo_store demo_rebook)
     (free_ticket (run_ops demo_store demo_rebook) (demo_env 5000 8 ''dd'') 1 7 no_info) \<noteq> None \<and>
   fst (bookTicket (run_ops demo_store demo_rebook) (demo_env 5000 8 ''dd'') 1 7 no_info) =
     FreeTicketBooked
       (Some (free_ticket (run_ops demo_store demo_rebook) (demo_env 5000 8 ''dd'') 1 7 no_info)) \<and>
   map (\<lambda>t. (tid t, eventId t, attendeeId t, status t))
     (tickets (snd (bookTicket (run_ops demo_store demo_rebook) (demo_env 5000 8 ''dd'') 1 7 no_info))) =
     [(1, 1, 7, Cancelled), (2, 1, 7, Active)]"
  unfolding demo_rebook_run by (simp add: demo_defs ledger_defs)

section \<open>The lookup of a scan\<close>

text \<open>
  Against claim C6 as stated: a request carries the ticket number of ticket 1 and the
  QR code data of ticket 2, two different tickets. The scan does not fail; it records the
  entry of ticket 1 and leaves ticket 2 alone.
\<close>

theorem scan_two_tickets_counterexample:
  "find (\<lambda>t. ticketNumber t = ''TCK1'') (tickets demo_booked) =
     Some (demo_ticket 1 7 Active default_verification 1000) \<and>
   find (\<lambda>t. qrCodeData t = ''qr2'') (tickets demo_booked) =
     Some (demo_ticket 2 8 Active default_verification 1000) \<and>
   demo_ticket 1 7 Active default_verification 1000 \<noteq>
     demo_ticket 2 8 Active default_verification 1000 \<and>
   fst (scanTicket demo_booked 200000500 200000501 3 both_rq) =
     ScanRecorded ''entry''
       \<lparr>dataTicketNumber = ''TCK1'', dataAttendeeName = ''Ann A'',
        dataAttendeeEmail = ''ann@x'', dataEventTitle = ''Meetup'',
        dataEventStart = 200000000,
        dataVerification =
          \<lparr>isScanned = True, scannedAt = Some 200000500, scannedBy = Some 3,
           entryTime = Some 200000500, exitTime = None, scanCount = 1\<rparr>,
        dataScanCount = 1, isFirstScan = True\<rparr> \<and>
   map (\<lambda>t. scanCount (verification t))
     (tickets (snd (scanTicket demo_booked 200000500 200000501 3 both_rq))) = [1, 0]"
  by (simp add: demo_booked_def demo_ticket_def demo_defs both_rq_def scan_defs
      default_verification_def default_checkIn_def dec.simps)

lemma build_query_ticketNumber:
  "truthy (reqTicketNumber rq) \<Longrightarrow> build_query (rq\<lparr>reqQrCodeData := q\<rparr>) = build_query rq"
  by (simp add: build_query_def)

text \<open>
  Claim C6, amended. When a scan request carries a ticket number, the lookup is by that
  ticket number (and the event, when given) alone: the query has no QR code field, and
  the answer and the store are the same whatever QR code data the request carries, also
  that of another ticket.
\<close>

theorem scan_resolves_by_ticketNumber:
  assumes "truthy (reqTicketNumber rq)"
  shows "scanTicket s now saved staffId (rq\<lparr>reqQrCodeData := q\<rparr>) =
           scanTicket s now saved staffId rq \<and>
         qQrCodeData (build_query rq) = None \<and>
         qTicketNumber (build_query rq) = reqTicketNumber rq"
proof (intro conjI)
  have "the_action (rq\<lparr>reqQrCodeData := q\<rparr>) = the_action rq"
    by (simp add: the_action_def)
  then show "scanTicket s now saved staffId (rq\<lparr>reqQrCodeData := q\<rparr>) =
      scanTicket s now saved staffId rq"
    unfolding scanTicket_def using assms
    by (simp add: build_query_ticketNumber)
  show "qQrCodeData (build_query rq) = None" "qTicketNumber (build_query rq) = reqTicketNumber rq"
    using assms by (simp_all add: build_query_def)
qed

theorem scan_resolves_by_ticketNumber_witness:
  "truthy (reqTicketNumber demo_rq) \<and>
   scanTicket demo_booked 200000500 200000501 3 both_rq =
     scanTicket demo_booked 200000500 200000501 3 demo_rq"
proof -
  have t: "truthy (reqTicketNumber demo_rq)" by (simp add: demo_rq_def truthy_def)
  have "demo_rq\<lparr>reqQrCodeData := Some ''qr2''\<rparr> = both_rq"
    by (simp add: demo_rq_def both_rq_def)
  with scan_resolves_by_ticketNumber [OF t, of demo_booked 200000500 200000501 3 "Some ''qr2''"]
  have "scanTicket demo_booked 200000500 200000501 3 both_rq =
      scanTicket demo_booked 200000500 200000501 3 demo_rq"
    by simp
  with t show ?thesis by (intro conjI)
qed

section \<open>Attendance\<close>

lemma attendanceRate_values:
  "attendanceRate_of sc 0 = 0" "attendanceRate_of 1 2 = 50"
  by (simp_all add: attendanceRate_of_def parseFloat_def double_values toFixed2_values)

lemma attendanceRate_bounds:
  assumes "0 \<le> sc" "sc \<le> tot"
  shows "0 \<le> attendanceRate_of sc tot"
    and "attendanceRate_of sc tot \<le> 100"
    and "0 < tot \<Longrightarrow>
         \<bar>attendanceRate_of sc tot - of_int sc / of_int tot * 100\<bar> \<le> 1 / 200 + 1 / 2 ^ 44"
  using rate_bounds [OF assms] by (simp_all add: attendanceRate_of_def parseFloat_def)

text \<open>
  The rate is not always the exact percentage rounded half up: 23 scanned of 160 are
  14.375 per cent, the binary64 product is just below that, and the rate is 14.37.
\<close>

lemma attendanceRate_23_of_160:
  "attendanceRate_of 23 160 = double (1437 / 100)"
  "toFixed2 (of_int 23 / of_int 160 * 100) = 1438 / 100"
  by code_simp+

lemma filter_filter_length:
  "length (filter Q (filter P ts)) = length (filter (\<lambda>t. P t \<and> Q t) ts)"
  by (induction ts) auto

lemma filter_split_length:
  "int (length (filter P ts)) - int (length (filter Q (filter P ts))) =
   int (length (filter (\<lambda>t. P t \<and> \<not> Q t) ts))"
  by (induction ts) auto

lemma demo_attendance:
  "getEventAttendance demo_scanned 1 3 =
     Attendance \<lparr>totalTickets = 2, scannedTickets = 1, unscannedTickets = 1, attendanceRate = 50\<rparr>"
  by (simp add: getEventAttendance_def demo_scan_defs demo_defs isAssigned_def Let_def
      attendanceRate_values)

text \<open>
  Against claim C7 as stated: with two active tickets of which one is scanned, the rate
  the claim describes is 1/2 rounded to two decimals, 0.5; the handler answers 50.
\<close>

theorem attendance_rate_counterexample:
  "getEventAttendance demo_scanned 1 3 =
     Attendance \<lparr>totalTickets = 2, scannedTickets = 1, unscannedTickets = 1, attendanceRate = 50\<rparr> \<and>
   parseFloat (toFixed2 (double (1 / 2))) = 1 / 2 \<and> (50 :: rat) \<noteq> 1 / 2"
proof -
  have a: "double (1 / 2) = 1 / 2" by (rule double_values)
  have b: "toFixed2 (1 / 2) = 1 / 2" using toFixed2_hundredths [of 50] by simp
  have "parseFloat (toFixed2 (double (1 / 2))) = 1 / 2"
    unfolding parseFloat_def a b a by (rule refl)
  moreover have "(50 :: rat) \<noteq> 1 / 2" by simp
  ultimately show ?thesis using demo_attendance by (intro conjI)
qed

text \<open>
  Claim C7, amended. For an existing event and a staff member assigned to it, when the
  attendee of every active ticket of the event exists, \<^verbatim>\<open>getEventAttendance\<close> answers
  with: the number of the event's active tickets as total, the number of those that are
  scanned, their difference, which is the number of active tickets not scanned, and as
  rate the percentage \<open>scanned / total * 100\<close> as binary64 arithmetic gives it (the
  quotient and the product rounded to the nearest binary64 value, the product rendered
  with two decimals and read back), 0 when there is no active ticket. The rate lies
  between 0 and 100 and within \<open>0.005 + 2 powi -44\<close> of the exact percentage.
\<close>

theorem attendance_statistics:
  assumes ev: "events s eid = Some e" and staff: "isAssigned e staffId"
    and att: "\<forall>t\<in>set (tickets s). eventId t = eid \<and> status t = Active \<longrightarrow>
                users s (attendeeId t) \<noteq> None"
  shows "\<exists>st. getEventAttendance s eid staffId = Attendance st \<and>
     totalTickets st =
       int (card {i. i < length (tickets s) \<and> eventId (tickets s ! i) = eid \<and>
                     status (tickets s ! i) = Active}) \<and>
     scannedTickets st =
       int (card {i. i < length (tickets s) \<and> (eventId (tickets s ! i) = eid \<and>
                     status (tickets s ! i) = Active) \<and>
                     isScanned (verification (tickets s ! i))}) \<and>
     unscannedTickets st = totalTickets st - scannedTickets st \<and>
     unscannedTickets st =
       int (card {i. i < length (tickets s) \<and> (eventId (tickets s ! i) = eid \<and>
                     status (tickets s ! i) = Active) \<and>
                     \<not> isScanned (verification (tickets s ! i))}) \<and>
     attendanceRate st =
       (if totalTickets st = 0 then 0
        else parseFloat (toFixed2 (double
               (double (of_int (scannedTickets st) / of_int (totalTickets st)) * 100)))) \<and>
     0 \<le> attendanceRate st \<and> attendanceRate st \<le> 100 \<and>
     (0 < totalTickets st \<longrightarrow>
        \<bar>attendanceRate st - of_int (scannedTickets st) / of_int (totalTickets st) * 100\<bar>
          \<le> 1 / 200 + 1 / 2 ^ 44)"
proof -
  let ?P = "\<lambda>t. eventId t = eid \<and> status t = Active"
  let ?Q = "\<lambda>t. isScanned (verification t)"
  let ?ts = "filter ?P (tickets s)"
  let ?tot = "int (length ?ts)"
  let ?sc = "int (length (filter ?Q ?ts))"
  let ?rate = "attendanceRate_of ?sc ?tot"
  let ?st = "\<lparr>totalTickets = ?tot, scannedTickets = ?sc, unscannedTickets = ?tot - ?sc,
              attendanceRate = ?rate\<rparr>"
  have "\<not> list_ex (\<lambda>t. users s (attendeeId t) = None) ?ts"
    using att by (auto simp: list_ex_iff)
  then have res: "getEventAttendance s eid staffId = Attendance ?st"
    unfolding getEventAttendance_def Let_def using ev staff by simp
  have tot: "?tot = int (card {i. i < length (tickets s) \<and> ?P (tickets s ! i)})"
    by (simp only: length_filter_conv_card)
  have sc: "?sc = int (card {i. i < length (tickets s) \<and> ?P (tickets s ! i) \<and> ?Q (tickets s ! i)})"
    unfolding filter_filter_length by (simp only: length_filter_conv_card)
  have un: "?tot - ?sc = int (card {i. i < length (tickets s) \<and> ?P (tickets s ! i) \<and> \<not> ?Q (tickets s ! i)})"
    unfolding filter_split_length by (simp only: length_filter_conv_card)
  have le: "0 \<le> ?sc" "?sc \<le> ?tot"
    using length_filter_le [of ?Q ?ts] by (simp_all only: of_nat_le_iff of_nat_0_le_iff)
  note rb = attendanceRate_bounds [OF le]
  have r0: "0 \<le> ?rate" and r1: "?rate \<le> 100" by (rule rb)+
  have rc: "0 < ?tot \<longrightarrow> \<bar>?rate - of_int ?sc / of_int ?tot * 100\<bar> \<le> 1 / 200 + 1 / 2 ^ 44"
    using rb(3) by blast
  have rt: "?rate = (if ?tot = 0 then 0
      else parseFloat (toFixed2 (double (double (of_int ?sc / of_int ?tot) * 100))))"
    by (simp add: attendanceRate_of_def)
  show ?thesis
    apply (rule exI [of _ ?st])
    apply (simp only: res simp_thms statistics.simps)
    apply (intro conjI)
    subgoal by (rule tot)
    subgoal by (rule sc)
    subgoal by (rule un)
    subgoal by (rule rt)
    subgoal by (rule r0)
    subgoal by (rule r1)
    subgoal by (rule rc)
    done
qed

theorem attendance_statistics_witness:
  "events demo_scanned 1 = Some (demo_event\<lparr>ticketsSold := 2\<rparr>) \<and>
   isAssigned (demo_event\<lparr>ticketsSold := 2\<rparr>) 3 \<and>
   getEventAttendance demo_scanned 1 3 =
     Attendance \<lparr>totalTickets = 2, scannedTickets = 1, unscannedTickets = 1, attendanceRate = 50\<rparr> \<and>
   (50 :: rat) = parseFloat (toFixed2 (double (double (of_int 1 / of_int 2) * 100)))"
proof -
  have ev: "events demo_scanned 1 = Some (demo_event\<lparr>ticketsSold := 2\<rparr>)"
    by (simp add: demo_scan_defs)
  have staff: "isAssigned (demo_event\<lparr>ticketsSold := 2\<rparr>) 3"
    by (simp add: isAssigned_def demo_event_def)
  have att: "\<forall>t\<in>set (tickets demo_scanned). eventId t = 1 \<and> status t = Active \<longrightarrow>
      users demo_scanned (attendeeId t) \<noteq> None"
    by (simp add: demo_scan_defs demo_defs)
  from attendance_statistics [OF ev staff att]
  obtain st where st: "getEventAttendance demo_scanned 1 3 = Attendance st"
    and rate: "attendanceRate st =
       (if totalTickets st = 0 then 0
        else parseFloat (toFixed2 (double
               (double (of_int (scannedTickets st) / of_int (totalTickets st)) * 100))))"
    by blast
  from st have "st = \<lparr>totalTickets = 2, scannedTickets = 1, unscannedTickets = 1, attendanceRate = 50\<rparr>"
    unfolding demo_attendance by simp
  with rate have "(50 :: rat) = parseFloat (toFixed2 (double (double (of_int 1 / of_int 2) * 100)))"
    by simp
  with ev staff demo_attendance show ?thesis by (intro conjI)
qed

section \<open>The unique indexes\<close>

text \<open>
  Every handler leaves the ids and the three unique keys distinct, so the stores reached
  from an empty ticket collection have tickets of distinct ids.
\<close>

lemma empty_indexes: "tickets s = [] \<Longrightarrow> indexes_hold s"
  by (simp add: indexes_hold_def)

lemma replace_ticket_indexes:
  assumes "indexes_hold s" "t \<in> set (tickets s)" "tid t' = tid t"
    and "ticketNumber t' = ticketNumber t" "qrCodeUrl t' = qrCodeUrl t"
    and "qrCodeData t' = qrCodeData t"
  shows "indexes_hold (replace_ticket s t')"
proof -
  from assms(1) have d: "distinct (map tid (tickets s))" by (simp add: indexes_hold_def)
  note k = replace_keeps_key [OF d assms(2)]
  have tk: "tickets (replace_ticket s t') = map (\<lambda>u. if tid u = tid t then t' else u) (tickets s)"
    by (simp add: replace_ticket_def assms(3))
  have "map tid (tickets (replace_ticket s t')) = map tid (tickets s)"
    "map ticketNumber (tickets (replace_ticket s t')) = map ticketNumber (tickets s)"
    "map qrCodeUrl (tickets (replace_ticket s t')) = map qrCodeUrl (tickets s)"
    "map qrCodeData (tickets (replace_ticket s t')) = map qrCodeData (tickets s)"
    unfolding tk
    by (rule k, simp add: assms)+
  with assms(1) show ?thesis by (simp only: indexes_hold_def)
qed

lemma insert_ticket_indexes:
  assumes "indexes_hold s" "insert_ticket s t = Some s'" "tid t \<notin> tid ` set (tickets s)"
  shows "indexes_hold s'"
proof -
  from assms(2) have no: "\<not> list_ex (index_clash t) (tickets s)"
    and s': "s' = s\<lparr>tickets := tickets s @ [t]\<rparr>"
    by (auto simp: insert_ticket_def split: if_splits)
  from no have "\<forall>u\<in>set (tickets s). ticketNumber u \<noteq> ticketNumber t \<and>
      qrCodeUrl u \<noteq> qrCodeUrl t \<and> qrCodeData u \<noteq> qrCodeData t"
    by (auto simp: list_ex_iff index_clash_def)
  then have "ticketNumber t \<notin> ticketNumber ` set (tickets s)"
    "qrCodeUrl t \<notin> qrCodeUrl ` set (tickets s)"
    "qrCodeData t \<notin> qrCodeData ` set (tickets s)"
    by force+
  with assms(1,3) show ?thesis unfolding s' indexes_hold_def by simp
qed

lemma bookTicket_indexes:
  assumes "indexes_hold s"
  shows "indexes_hold (snd (bookTicket s env eid aid ai))"
proof (cases "events s eid")
  case None
  with assms show ?thesis by (simp add: bookTicket_NotFound)
next
  case (Some e)
  let ?t = "free_ticket s env eid aid ai"
  have fresh: "tid ?t \<notin> tid ` set (tickets s)"
    using fresh_tid_new [of "tickets s"] by (simp add: free_ticket_def)
  show ?thesis
  proof (cases "list_ex (index_clash ?t) (tickets s)")
    case True
    with assms show ?thesis unfolding bookTicket_Some [OF Some] by simp
  next
    case False
    then have "insert_ticket s ?t = Some (s\<lparr>tickets := tickets s @ [?t]\<rparr>)"
      by (simp add: insert_ticket_def)
    from insert_ticket_indexes [OF assms this fresh]
    have "indexes_hold (s\<lparr>tickets := tickets s @ [?t]\<rparr>)" .
    then have "indexes_hold (s\<lparr>tickets := tickets s @ [?t],
        events := (events s)(eid \<mapsto> e\<lparr>ticketsSold := ticketsSold e + 1\<rparr>)\<rparr>)"
      by (simp add: indexes_hold_def)
    with assms show ?thesis unfolding bookTicket_Some [OF Some] by simp
  qed
qed

lemma cancelTicket_indexes:
  assumes "indexes_hold s"
  shows "indexes_hold (snd (cancelTicket s ck ticketId aid r))"
proof (cases "find (\<lambda>t. tid t = ticketId \<and> attendeeId t = aid \<and> status t = Active) (tickets s)")
  case None
  show ?thesis using assms by (simp add: cancelTicket_NotFound [OF None])
next
  case (Some t)
  let ?t' = "t\<lparr>status := Cancelled, updatedAt := clockUpdated ck\<rparr>"
  have "indexes_hold (replace_ticket s ?t')"
    using assms find_SomeD [OF Some] by (intro replace_ticket_indexes [of s t]) simp_all
  then have sv: "indexes_hold (inc_ticketsSold (replace_ticket s ?t') i d)" for i d
    by (simp add: indexes_hold_def inc_ticketsSold_def split: option.split)
  show ?thesis
  proof (cases "events s (eventId t)")
    case None
    show ?thesis using assms by (simp add: cancelTicket_NoEvent [OF Some None])
  next
    case ev: (Some e)
    show ?thesis
    proof (cases "hoursUntilEvent (startDateTime e) (clockHours ck) < 24")
      case True
      show ?thesis using assms by (simp add: cancelTicket_TooLate [OF Some ev True])
    next
      case False
      have "indexes_hold (x\<lparr>payments := p\<rparr>) = indexes_hold x" for x p
        by (simp add: indexes_hold_def)
      with sv show ?thesis
        unfolding cancelTicket_Done [OF Some ev False] by simp
    qed
  qed
qed

lemma scanTicket_indexes:
  assumes "indexes_hold s"
  shows "indexes_hold (snd (scanTicket s now saved staffId rq))"
proof -
  from scanTicket_tickets [of s now saved staffId rq]
  consider "snd (scanTicket s now saved staffId rq) = s"
    | t where "find (matches (build_query rq)) (tickets s) = Some t"
        "snd (scanTicket s now saved staffId rq) =
          replace_ticket s
            (t\<lparr>verification := record_scan (verification t) (the_action rq) now staffId,
               updatedAt := saved\<rparr>)"
    by blast
  then show ?thesis
  proof cases
    case 1
    with assms show ?thesis by simp
  next
    case 2
    show ?thesis
      unfolding 2(2) using assms find_SomeD [OF 2(1)]
      by (intro replace_ticket_indexes [of s t]) simp_all
  qed
qed

lemma run_ops_indexes: "indexes_hold s \<Longrightarrow> indexes_hold (run_ops s ops)"
  unfolding run_ops_def
proof (induction ops arbitrary: s)
  case Nil
  then show ?case by simp
next
  case (Cons op ops)
  have "indexes_hold (apply_op s op)"
    using Cons.prems by (cases op) (simp_all add: bookTicket_indexes cancelTicket_indexes scanTicket_indexes)
  then show ?case using Cons.IH by simp
qed

lemma run_scans_indexes: "indexes_hold s \<Longrightarrow> indexes_hold (run_scans s rs)"
proof (induction rs arbitrary: s)
  case Nil
  then show ?case by simp
next
  case (Cons r rs)
  obtain now saved staffId rq where r: "r = (now, saved, staffId, rq)" by (cases r)
  from Cons.prems have "indexes_hold (snd (scanTicket s now saved staffId rq))"
    by (rule scanTicket_indexes)
  then show ?case unfolding r run_scans.simps by (rule Cons.IH)
qed

section \<open>The counter under every sequence of requests\<close>

lemma active_count_map:
  "active_count ts i =
     int (length (filter (\<lambda>b. b) (map (\<lambda>t. eventId t = i \<and> status t = Active) ts)))"
  by (simp add: active_count_def filter_map comp_def)

lemma scanTicket_consistent:
  assumes "ledger_consistent s"
  shows "ledger_consistent (snd (scanTicket s now saved staffId rq))"
proof -
  from scanTicket_tickets [of s now saved staffId rq]
  consider "snd (scanTicket s now saved staffId rq) = s"
    | t where "find (matches (build_query rq)) (tickets s) = Some t"
        "snd (scanTicket s now saved staffId rq) =
          replace_ticket s
            (t\<lparr>verification := record_scan (verification t) (the_action rq) now staffId,
               updatedAt := saved\<rparr>)"
    by blast
  then show ?thesis
  proof cases
    case 1
    with assms show ?thesis by simp
  next
    case 2
    let ?t = "t\<lparr>verification := record_scan (verification t) (the_action rq) now staffId,
                 updatedAt := saved\<rparr>"
    let ?ts = "map (\<lambda>u. if tid u = tid t then ?t else u) (tickets s)"
    from assms have d: "distinct (map tid (tickets s))" by (simp add: ledger_consistent_def)
    have tin: "t \<in> set (tickets s)" using find_SomeD [OF 2(1)] by simp
    have tk: "tickets (snd (scanTicket s now saved staffId rq)) = ?ts"
      and ev: "events (snd (scanTicket s now saved staffId rq)) = events s"
      unfolding 2(2) by (simp_all add: replace_ticket_def)
    have ids: "map tid ?ts = map tid (tickets s)"
      by (rule replace_keeps_key [OF d tin]) simp
    have "map (\<lambda>t. eventId t = i \<and> status t = Active) ?ts =
          map (\<lambda>t. eventId t = i \<and> status t = Active) (tickets s)" for i
      by (rule replace_keeps_key [OF d tin]) simp
    then have cnt: "active_count ?ts i = active_count (tickets s) i" for i
      by (simp only: active_count_map)
    show ?thesis
      using assms unfolding ledger_consistent_def tk ev ids cnt .
  qed
qed

lemma run_ops_consistent: "ledger_consistent s \<Longrightarrow> ledger_consistent (run_ops s ops)"
  unfolding run_ops_def
proof (induction ops arbitrary: s)
  case Nil
  then show ?case by simp
next
  case (Cons op ops)
  have "ledger_consistent (apply_op s op)"
    using Cons.prems by (cases op) (simp_all add: bookTicket_consistent cancelTicket_consistent scanTicket_consistent)
  then show ?case using Cons.IH by simp
qed

lemma demo_consistent: "ledger_consistent demo_store"
  by (rule new_ledger_consistent) (auto simp: demo_defs split: if_splits)

lemma demo_run: "events (run_ops demo_store demo_ops) 1 = Some (demo_event\<lparr>ticketsSold := 2\<rparr>)"
  by (simp add: demo_defs ledger_defs cancel_defs demo_rq_def scanTicket_def the_action_def truthy_def
      build_query_def matches_def isAssigned_def record_scan_def or_zero_def)

text \<open>
  Claim C1. In a ledger whose counters agree with its tickets (every event's
  \<^verbatim>\<open>ticketsSold\<close> is at least the number of its active tickets and at most its
  capacity, as for new events), every sequence of \<^verbatim>\<open>bookTicket\<close> and \<^verbatim>\<open>cancelTicket\<close>
  requests, also with \<^verbatim>\<open>scanTicket\<close> requests in between, whatever their arguments,
  clocks and outcomes, leaves every event with \<open>0 \<le> ticketsSold \<le> capacity\<close>.
\<close>

theorem ticketsSold_within_capacity:
  assumes "ledger_consistent s" and "events (run_ops s ops) i = Some e"
  shows "0 \<le> ticketsSold e \<and> ticketsSold e \<le> capacity e"
proof -
  have "ledger_consistent (run_ops s ops)" using assms(1) by (rule run_ops_consistent)
  from this assms(2)
  have "active_count (tickets (run_ops s ops)) i \<le> ticketsSold e \<and> ticketsSold e \<le> capacity e"
    by (rule ledger_consistentD)
  then show ?thesis
    using active_count_nonneg [of "tickets (run_ops s ops)" i] by linarith
qed

theorem ticketsSold_within_capacity_witness:
  "ledger_consistent demo_store \<and>
   events (run_ops demo_store demo_ops) 1 = Some (demo_event\<lparr>ticketsSold := 2\<rparr>) \<and>
   0 \<le> ticketsSold (demo_event\<lparr>ticketsSold := 2\<rparr>) \<and>
   ticketsSold (demo_event\<lparr>ticketsSold := 2\<rparr>) \<le> capacity (demo_event\<lparr>ticketsSold := 2\<rparr>)"
  by (rule conjI [OF demo_consistent
        conjI [OF demo_run ticketsSold_within_capacity [OF demo_consistent demo_run]]])

section \<open>Bookings that overlap\<close>

lemmas step_defs = run_schedule_def step_at_def book_step_def alternating_def seat_request_def
  last_seat_def won_def succeeded_def

text \<open>
  The five steps of a request, run without another request in between, are
  \<^verbatim>\<open>bookTicket\<close> as one function; so a schedule without overlap is the sequence of the
  requests.
\<close>

lemma five_steps:
  assumes "i < length rs" "length phs = length rs" "phs ! i = Started"
  shows "fold (step_at rs) [i, i, i, i, i] (s, phs) =
           (snd (book s (rs ! i)), phs[i := Answered (fst (book s (rs ! i)))])"
  using assms
  by (auto simp: step_at_def book_step_def book_def bookTicket_def Let_def
      split: option.splits)

lemma serial_run_aux:
  "length dn = length as \<Longrightarrow>
   fold (step_at (dn @ rs))
     (concat (map (\<lambda>i. [i, i, i, i, i]) [length dn..<length dn + length rs]))
     (s, map Answered as @ map (\<lambda>r. Started) rs) =
   (snd (book_serial s rs), map Answered as @ map Answered (fst (book_serial s rs)))"
proof (induction rs arbitrary: dn as s)
  case Nil
  then show ?case by simp
next
  case (Cons r rs)
  let ?k = "length dn"
  let ?phs = "map Answered as @ map (\<lambda>r. Started) (r # rs)"
  let ?a = "fst (book s r)"
  let ?s' = "snd (book s r)"
  have e: "?k + length (r # rs) = Suc ?k + length rs" by simp
  have up: "[?k..<?k + length (r # rs)] = ?k # [Suc ?k..<Suc ?k + length rs]"
    unfolding e by (rule upt_conv_Cons) simp
  have i: "?k < length (dn @ r # rs)" by simp
  have l: "length ?phs = length (dn @ r # rs)" using Cons.prems by simp
  have st: "?phs ! ?k = Started" using Cons.prems by (simp add: nth_append)
  have r: "(dn @ r # rs) ! ?k = r" by simp
  have first: "fold (step_at (dn @ r # rs)) [?k, ?k, ?k, ?k, ?k] (s, ?phs) =
      (?s', map Answered (as @ [?a]) @ map (\<lambda>r. Started) rs)"
    unfolding five_steps [OF i l st] r using Cons.prems by (simp add: list_update_append)
  have len: "length (dn @ [r]) = length (as @ [?a])" using Cons.prems by simp
  have IH: "fold (step_at (dn @ r # rs))
       (concat (map (\<lambda>i. [i, i, i, i, i]) [Suc ?k..<Suc ?k + length rs]))
       (?s', map Answered (as @ [?a]) @ map (\<lambda>r. Started) rs) =
     (snd (book_serial ?s' rs), map Answered (as @ [?a]) @ map Answered (fst (book_serial ?s' rs)))"
    using Cons.IH [OF len, of ?s'] by simp
  have "fold (step_at (dn @ r # rs))
       (concat (map (\<lambda>i. [i, i, i, i, i]) [?k..<?k + length (r # rs)])) (s, ?phs) =
     fold (step_at (dn @ r # rs))
       (concat (map (\<lambda>i. [i, i, i, i, i]) [Suc ?k..<Suc ?k + length rs]))
       (fold (step_at (dn @ r # rs)) [?k, ?k, ?k, ?k, ?k] (s, ?phs))"
    unfolding up by (simp only: list.map concat.simps fold_append comp_def)
  also have "\<dots> = (snd (book_serial ?s' rs),
      map Answered (as @ [?a]) @ map Answered (fst (book_serial ?s' rs)))"
    unfolding first by (rule IH)
  also have "\<dots> = (snd (book_serial s (r # rs)),
      map Answered as @ map Answered (fst (book_serial s (r # rs))))"
    by simp
  finally show ?case .
qed

lemma serial_run:
  "run_schedule rs (one_by_one (length rs)) s =
     (snd (book_serial s rs), map Answered (fst (book_serial s rs)))"
  using serial_run_aux [of "[]" "[]" rs s]
  by (simp add: run_schedule_def one_by_one_def)

lemma bookTicket_success_only:
  assumes "fst (bookTicket s env eid aid ai) = FreeTicketBooked x"
  shows "\<exists>e. events s eid = Some e \<and> eventStatus e = Published \<and>
             clockCheck env < startDateTime e \<and> ticketsSold e < capacity e \<and>
             snd (bookTicket s env eid aid ai) =
               s\<lparr>tickets := tickets s @ [free_ticket s env eid aid ai],
                  events := (events s)(eid \<mapsto> e\<lparr>ticketsSold := ticketsSold e + 1\<rparr>)\<rparr>"
proof (cases "events s eid")
  case None
  with assms show ?thesis by (simp add: bookTicket_NotFound)
next
  case (Some e)
  show ?thesis
    using assms unfolding bookTicket_Some [OF Some] Some
    by (simp split: if_splits)
qed

lemma sold_out_serial:
  assumes "events s eid = Some e" "eventStatus e = Published" "capacity e \<le> ticketsSold e"
    and "\<forall>r\<in>set rs. bookEvent r = eid"
  shows "book_serial s rs =
           (map (\<lambda>r. if startDateTime e \<le> clockCheck (bookEnv r) then AlreadyStarted else SoldOut) rs, s)"
  using assms(4)
proof (induction rs)
  case Nil
  then show ?case by simp
next
  case (Cons r rs)
  then have r: "bookEvent r = eid" and rest: "\<forall>r\<in>set rs. bookEvent r = eid" by simp_all
  have "book s r = (if startDateTime e \<le> clockCheck (bookEnv r) then AlreadyStarted else SoldOut, s)"
    unfolding book_def r bookTicket_Some [OF assms(1)] using assms(2,3) by simp
  with Cons.IH [OF rest] show ?case by simp
qed

lemma second_booking_fails:
  assumes ok: "fst (book s r) = FreeTicketBooked x"
    and same: "bookEvent r' = bookEvent r" "bookAttendee r' = bookAttendee r"
  shows "(fst (book (snd (book s r)) r') = AlreadyStarted \<or>
          fst (book (snd (book s r)) r') = SoldOut \<or>
          fst (book (snd (book s r)) r') = AlreadyHaveTicket) \<and>
         snd (book (snd (book s r)) r') = snd (book s r)"
proof -
  let ?t = "free_ticket s (bookEnv r) (bookEvent r) (bookAttendee r) (bookInfo r)"
  from bookTicket_success_only [OF ok [unfolded book_def]]
  obtain e where e: "events s (bookEvent r) = Some e" "eventStatus e = Published"
    and s': "snd (book s r) =
        s\<lparr>tickets := tickets s @ [?t],
           events := (events s)(bookEvent r \<mapsto> e\<lparr>ticketsSold := ticketsSold e + 1\<rparr>)\<rparr>"
    unfolding book_def by blast
  let ?s' = "snd (book s r)"
  have ev': "events ?s' (bookEvent r) = Some (e\<lparr>ticketsSold := ticketsSold e + 1\<rparr>)"
    unfolding s' by simp
  have "?t \<in> set (tickets ?s')" unfolding s' by simp
  moreover have "eventId ?t = bookEvent r \<and> attendeeId ?t = bookAttendee r \<and> status ?t \<noteq> Cancelled"
    by (simp add: free_ticket_def)
  ultimately have "\<exists>t\<in>set (tickets ?s'). eventId t = bookEvent r \<and> attendeeId t = bookAttendee r \<and>
      status t \<noteq> Cancelled" by blast
  then have dup: "find (\<lambda>t. eventId t = bookEvent r \<and> attendeeId t = bookAttendee r \<and>
      status t \<noteq> Cancelled) (tickets ?s') \<noteq> None"
    by (simp only: find_dup_iff)
  show ?thesis
    unfolding book_def [of ?s' r'] same bookTicket_Some [OF ev']
    using e(2) dup by simp
qed

lemma first_booking_wins:
  assumes e: "events s (bookEvent r) = Some e" "eventStatus e = Published" "isFree (pricing e)"
      "capacity e = 1" "ticketsSold e = 0" "clockCheck (bookEnv r) < startDateTime e"
    and none: "find (\<lambda>t. eventId t = bookEvent r \<and> attendeeId t = bookAttendee r \<and>
                 status t \<noteq> Cancelled) (tickets s) = None"
    and new: "keys_new s (bookEnv r)"
    and rs: "\<forall>r'\<in>set rs. bookEvent r' = bookEvent r"
  shows "succeeded (fst (book s r)) \<and>
         fst (book_serial (snd (book s r)) rs) =
           map (\<lambda>r'. if startDateTime e \<le> clockCheck (bookEnv r') then AlreadyStarted else SoldOut) rs \<and>
         length (filter succeeded (fst (book_serial s (r # rs)))) = 1"
proof -
  let ?t = "free_ticket s (bookEnv r) (bookEvent r) (bookAttendee r) (bookInfo r)"
  let ?e' = "e\<lparr>ticketsSold := ticketsSold e + 1\<rparr>"
  have seat: "ticketsSold e < capacity e" using e(4,5) by simp
  have b: "book s r =
      (FreeTicketBooked (Some ?t),
       s\<lparr>tickets := tickets s @ [?t], events := (events s)(bookEvent r \<mapsto> ?e')\<rparr>)"
    unfolding book_def bookTicket_passed [OF e(1,2,6) seat none] using e(3) new by simp
  have ok: "succeeded (fst (book s r))" unfolding b by (simp add: succeeded_def)
  have ev': "events (snd (book s r)) (bookEvent r) = Some ?e'" unfolding b by simp
  have full: "eventStatus ?e' = Published" "capacity ?e' \<le> ticketsSold ?e'"
    using e(2,4,5) by simp_all
  from sold_out_serial [OF ev' full rs]
  have rest: "book_serial (snd (book s r)) rs =
      (map (\<lambda>r'. if startDateTime e \<le> clockCheck (bookEnv r') then AlreadyStarted else SoldOut) rs,
       snd (book s r))"
    by simp
  have "filter succeeded
      (map (\<lambda>r'. if startDateTime e \<le> clockCheck (bookEnv r') then AlreadyStarted else SoldOut) rs) = []"
    by (induction rs) (simp_all add: succeeded_def)
  with ok have "length (filter succeeded (fst (book_serial s (r # rs)))) = 1"
    by (simp add: rest)
  with ok rest show ?thesis by simp
qed

text \<open>
  Against claim C8 as stated: two requests for the last seat of the example event, by
  attendees 7 and 8, whose database operations alternate. Both read the event before
  either has written, both pass the capacity check and the duplicate check, both insert
  their ticket and both raise the counter: both are answered with success, and the event
  ends with two active tickets and \<^verbatim>\<open>ticketsSold\<close> 2 of capacity 1. In the same way two
  overlapping requests of attendee 7 for the example event of capacity 2 both succeed and
  leave two active tickets of the same event and attendee.
\<close>

theorem overlapping_bookings_counterexample:
  "map won (snd (run_schedule [seat_request 7 1000 5 ''aa'', seat_request 8 1000 6 ''bb'']
       alternating last_seat)) = [True, True] \<and>
   events (fst (run_schedule [seat_request 7 1000 5 ''aa'', seat_request 8 1000 6 ''bb'']
       alternating last_seat)) 1 = Some (demo_event\<lparr>capacity := 1, ticketsSold := 2\<rparr>) \<and>
   map (\<lambda>t. (attendeeId t, status t))
     (tickets (fst (run_schedule [seat_request 7 1000 5 ''aa'', seat_request 8 1000 6 ''bb'']
       alternating last_seat))) = [(7, Active), (8, Active)] \<and>
   map won (snd (run_schedule [seat_request 7 1000 5 ''aa'', seat_request 7 1001 6 ''bb'']
       alternating demo_store)) = [True, True] \<and>
   map (\<lambda>t. (eventId t, attendeeId t, status t))
     (tickets (fst (run_schedule [seat_request 7 1000 5 ''aa'', seat_request 7 1001 6 ''bb'']
       alternating demo_store))) = [(1, 7, Active), (1, 7, Active)]"
  by (simp add: step_defs demo_defs ledger_defs)

text \<open>
  Claim C8, amended. \<^verbatim>\<open>bookTicket\<close> runs its capacity check, its duplicate check, the
  insert and the increment as separate database operations, with nothing to keep other
  requests out in between. When the calls do not overlap, each request running its five
  operations before the next begins, the run is that of \<^verbatim>\<open>bookTicket\<close> applied to one
  request after the other. Then, of any number of calls for a free, published event
  with capacity 1 and nothing sold, the first one (made before the start, by an attendee
  without a ticket that is not cancelled, with new keys) succeeds and every later one
  fails with the sold-out error, or the already-started error when its clock has
  reached the start, so that exactly one succeeds. And a call for the same event and
  attendee after a successful one fails with the already-started, the sold-out or the
  duplicate error and changes nothing.
\<close>

theorem serial_bookings_one_winner:
  "run_schedule (r # rs) (one_by_one (length (r # rs))) s =
     (snd (book_serial s (r # rs)), map Answered (fst (book_serial s (r # rs)))) \<and>
   (\<forall>e. events s (bookEvent r) = Some e \<and> eventStatus e = Published \<and> isFree (pricing e) \<and>
        capacity e = 1 \<and> ticketsSold e = 0 \<and> clockCheck (bookEnv r) < startDateTime e \<and>
        find (\<lambda>t. eventId t = bookEvent r \<and> attendeeId t = bookAttendee r \<and>
                   status t \<noteq> Cancelled) (tickets s) = None \<and>
        keys_new s (bookEnv r) \<and> (\<forall>r'\<in>set rs. bookEvent r' = bookEvent r) \<longrightarrow>
        succeeded (fst (book s r)) \<and>
        fst (book_serial (snd (book s r)) rs) =
          map (\<lambda>r'. if startDateTime e \<le> clockCheck (bookEnv r') then AlreadyStarted else SoldOut) rs \<and>
        length (filter succeeded (fst (book_serial s (r # rs)))) = 1) \<and>
   (\<forall>r' x. fst (book s r) = FreeTicketBooked x \<and> bookEvent r' = bookEvent r \<and>
        bookAttendee r' = bookAttendee r \<longrightarrow>
        (fst (book (snd (book s r)) r') = AlreadyStarted \<or>
         fst (book (snd (book s r)) r') = SoldOut \<or>
         fst (book (snd (book s r)) r') = AlreadyHaveTicket) \<and>
        snd (book (snd (book s r)) r') = snd (book s r))"
proof (intro conjI allI impI)
  show "run_schedule (r # rs) (one_by_one (length (r # rs))) s =
      (snd (book_serial s (r # rs)), map Answered (fst (book_serial s (r # rs))))"
    by (rule serial_run)
next
  fix e
  assume a: "events s (bookEvent r) = Some e \<and> eventStatus e = Published \<and> isFree (pricing e) \<and>
        capacity e = 1 \<and> ticketsSold e = 0 \<and> clockCheck (bookEnv r) < startDateTime e \<and>
        find (\<lambda>t. eventId t = bookEvent r \<and> attendeeId t = bookAttendee r \<and>
                   status t \<noteq> Cancelled) (tickets s) = None \<and>
        keys_new s (bookEnv r) \<and> (\<forall>r'\<in>set rs. bookEvent r' = bookEvent r)"
  then have e: "events s (bookEvent r) = Some e" "eventStatus e = Published" "isFree (pricing e)"
      "capacity e = 1" "ticketsSold e = 0" "clockCheck (bookEnv r) < startDateTime e"
    and none: "find (\<lambda>t. eventId t = bookEvent r \<and> attendeeId t = bookAttendee r \<and>
                 status t \<noteq> Cancelled) (tickets s) = None"
    and new: "keys_new s (bookEnv r)"
    and rs: "\<forall>r'\<in>set rs. bookEvent r' = bookEvent r"
    by blast+
  note w = first_booking_wins [OF e none new rs]
  from w show "succeeded (fst (book s r))" by blast
  from w show "fst (book_serial (snd (book s r)) rs) =
      map (\<lambda>r'. if startDateTime e \<le> clockCheck (bookEnv r') then AlreadyStarted else SoldOut) rs"
    by blast
  from w show "length (filter succeeded (fst (book_serial s (r # rs)))) = 1" by blast
next
  fix r' :: book_request and x
  assume a: "fst (book s r) = FreeTicketBooked x \<and> bookEvent r' = bookEvent r \<and>
        bookAttendee r' = bookAttendee r"
  then have ok: "fst (book s r) = FreeTicketBooked x"
    and same: "bookEvent r' = bookEvent r" "bookAttendee r' = bookAttendee r" by blast+
  note f = second_booking_fails [OF ok same]
  from f show "fst (book (snd (book s r)) r') = AlreadyStarted \<or>
         fst (book (snd (book s r)) r') = SoldOut \<or>
         fst (book (snd (book s r)) r') = AlreadyHaveTicket" by blast
  from f show "snd (book (snd (book s r)) r') = snd (book s r)" by blast
qed

theorem serial_bookings_one_winner_witness:
  "events last_seat 1 = Some (demo_event\<lparr>capacity := 1\<rparr>) \<and>
   keys_new last_seat (demo_env 1000 5 ''aa'') \<and>
   map succeeded
     (fst (book_serial last_seat
        [seat_request 7 1000 5 ''aa'', seat_request 8 1000 6 ''bb'', seat_request 9 1001 7 ''cc''])) =
     [True, False, False] \<and>
   fst (book_serial (snd (book last_seat (seat_request 7 1000 5 ''aa'')))
        [seat_request 8 1000 6 ''bb'', seat_request 9 1001 7 ''cc'']) = [SoldOut, SoldOut]"
proof -
  let ?r = "seat_request 7 1000 5 ''aa''"
  let ?rs = "[seat_request 8 1000 6 ''bb'', seat_request 9 1001 7 ''cc'']"
  let ?e = "demo_event\<lparr>capacity := 1\<rparr>"
  have ev: "events last_seat 1 = Some ?e" by (simp add: last_seat_def)
  have new: "keys_new last_seat (demo_env 1000 5 ''aa'')"
    by (simp add: keys_new_def last_seat_def demo_store_def)
  have pre: "events last_seat (bookEvent ?r) = Some ?e \<and> eventStatus ?e = Published \<and>
        isFree (pricing ?e) \<and> capacity ?e = 1 \<and> ticketsSold ?e = 0 \<and>
        clockCheck (bookEnv ?r) < startDateTime ?e \<and>
        find (\<lambda>t. eventId t = bookEvent ?r \<and> attendeeId t = bookAttendee ?r \<and>
                   status t \<noteq> Cancelled) (tickets last_seat) = None \<and>
        keys_new last_seat (bookEnv ?r) \<and> (\<forall>r'\<in>set ?rs. bookEvent r' = bookEvent ?r)"
    using new by (simp add: seat_request_def last_seat_def demo_defs)
  from serial_bookings_one_winner [where r = ?r and s = last_seat and rs = ?rs, THEN conjunct2, THEN conjunct1,
      rule_format, OF pre]
  have ok: "succeeded (fst (book last_seat ?r))"
    and rest: "fst (book_serial (snd (book last_seat ?r)) ?rs) =
      map (\<lambda>r'. if startDateTime ?e \<le> clockCheck (bookEnv r') then AlreadyStarted else SoldOut) ?rs"
    by blast+
  from rest have rest': "fst (book_serial (snd (book last_seat ?r)) ?rs) = [SoldOut, SoldOut]"
    by (simp add: seat_request_def demo_defs)
  have "fst (book_serial last_seat (?r # ?rs)) =
      fst (book last_seat ?r) # fst (book_serial (snd (book last_seat ?r)) ?rs)"
    by (simp only: book_serial.simps fst_conv)
  then have "map succeeded (fst (book_serial last_seat (?r # ?rs))) =
      succeeded (fst (book last_seat ?r)) # map succeeded [SoldOut, SoldOut]"
    by (simp only: rest' list.map)
  with ok have "map succeeded (fst (book_serial last_seat (?r # ?rs))) = [True, False, False]"
    by (simp add: succeeded_def)
  with ev new rest' show ?thesis by (intro conjI)
qed

end
